theory Spec2Isabelle
  imports Complex_Main
begin

chapter \<open>The model: definitions embedded from the analysis scripts\<close>

section \<open>Spike detection (compute\_spikes)\<close>

text \<open>
  \<^verbatim>\<open>compute_spikes\<close> occurs with the same body in
  \<^verbatim>\<open>extract_eval_spikes.py\<close>, \<^verbatim>\<open>make_targets_from_logs.py\<close> and
  \<^verbatim>\<open>make_targets_from_moves.py\<close>:
  \<^verbatim>\<open>
  spikes = []; prev = None
  for i, sc in enumerate(evals, start=1):
      if prev is None:
          prev = sc
          continue
      delta = sc - prev
      if abs(delta) >= threshold:
          spikes.append((i, delta))
      prev = sc
  return spikes
  \<close>
  Python integers are unbounded, so evaluations and deltas are \<open>int\<close>; the ply index is
  a \<open>nat\<close>.
\<close>

definition enumerate_from :: "nat \<Rightarrow> 'a list \<Rightarrow> (nat \<times> 'a) list" where
  "enumerate_from start xs = zip [start ..< start + length xs] xs"

fun spikes_loop :: "int \<Rightarrow> int option \<Rightarrow> (nat \<times> int) list \<Rightarrow> (nat \<times> int) list \<Rightarrow> (nat \<times> int) list" where
  "spikes_loop threshold prev spikes [] = spikes"
| "spikes_loop threshold prev spikes ((i, sc) # rest) =
     (case prev of
        None \<Rightarrow> spikes_loop threshold (Some sc) spikes rest
      | Some p \<Rightarrow>
          (let delta = sc - p in
           spikes_loop threshold (Some sc)
             (if \<bar>delta\<bar> \<ge> threshold then spikes @ [(i, delta)] else spikes) rest))"

definition compute_spikes :: "int list \<Rightarrow> int \<Rightarrow> (nat \<times> int) list" where
  "compute_spikes evals threshold = spikes_loop threshold None [] (enumerate_from 1 evals)"

text \<open>
  The specification's wording: the 1-based indices \<open>i\<close> in \<open>[2, L]\<close> with
  \<open>|E[i] - E[i-1]| \<ge> T\<close>, in increasing order, each with its signed delta. With the
  0-based list access of HOL, the 1-based index \<open>i\<close> is \<open>Suc j\<close> for \<open>j\<close> in \<open>[1, L)\<close>.
\<close>

definition spikes_spec :: "int list \<Rightarrow> int \<Rightarrow> (nat \<times> int) list" where
  "spikes_spec E T =
     map (\<lambda>j. (Suc j, E ! j - E ! (j - 1)))
       (filter (\<lambda>j. T \<le> \<bar>E ! j - E ! (j - 1)\<bar>) [1 ..< length E])"

text \<open>
  The loop once the first sample has been consumed: \<open>p\<close> is \<open>prev\<close> and \<open>k\<close> the index
  of the next sample.
\<close>

fun deltas_from :: "int \<Rightarrow> int \<Rightarrow> nat \<Rightarrow> int list \<Rightarrow> (nat \<times> int) list" where
  "deltas_from T p k [] = []"
| "deltas_from T p k (x # xs) =
     (if T \<le> \<bar>x - p\<bar> then [(k, x - p)] else []) @ deltas_from T x (Suc k) xs"

section \<open>Target runner: the retained evaluation (run\_eval\_targets.py, run\_eval\_targets\_params.py)\<close>

text \<open>
  Both \<^verbatim>\<open>run_one\<close> functions end with the same scan of the collected output lines:
  \<^verbatim>\<open>
  last_cp=None; last_depth=-1
  for ln in out_lines:
      m=re.search(r'info depth (\d+).*?score cp ([+-]?\d+)', ln)
      if m:
          d=int(m.group(1)); cp=int(m.group(2))
          if d>=last_depth:
              last_depth=d; last_cp=cp
  return last_cp, last_depth
  \<close>
  Strings are lists of 8-bit characters (code points below 256), where \<^verbatim>\<open>\d\<close> is \<open>[0-9]\<close>.
\<close>

definition is_digit :: "char \<Rightarrow> bool" where
  "is_digit c \<longleftrightarrow> c \<in> set ''0123456789''"

definition digit_val :: "char \<Rightarrow> nat" where
  "digit_val c = of_char c - 48"

definition digits_val :: "string \<Rightarrow> nat" where
  "digits_val ds = foldl (\<lambda>a c. 10 * a + digit_val c) 0 ds"









section \<open>Transcript parsing (extract\_eval\_spikes.py, make\_targets\_from\_moves.py)\<close>

text \<open>
  The character classes of Python's \<^verbatim>\<open>re\<close> on \<^verbatim>\<open>str\<close>, for code points below 256:
  \<^verbatim>\<open>\s\<close> (also what \<^verbatim>\<open>str.split()\<close> and \<^verbatim>\<open>str.strip()\<close> treat as whitespace) and \<^verbatim>\<open>\w\<close>.
\<close>

definition is_space :: "char \<Rightarrow> bool" where
  "is_space c \<longleftrightarrow> (of_char c :: nat) \<in> set [9, 10, 11, 12, 13, 28, 29, 30, 31, 32, 133, 160]"

definition is_word :: "char \<Rightarrow> bool" where
  "is_word c \<longleftrightarrow>
     (let n = (of_char c :: nat) in
      (48 \<le> n \<and> n \<le> 57) \<or> (65 \<le> n \<and> n \<le> 90) \<or> n = 95 \<or> (97 \<le> n \<and> n \<le> 122) \<or>
      n \<in> set [170, 178, 179, 181, 185, 186, 188, 189, 190] \<or>
      (192 \<le> n \<and> n \<le> 214) \<or> (216 \<le> n \<and> n \<le> 246) \<or> (248 \<le> n \<and> n \<le> 255))"

text \<open>
  \<^verbatim>\<open>\b\<close> next to a word character of the pattern: the neighbour on the other side is
  missing or not a word character.
\<close>

definition boundary_before :: "char option \<Rightarrow> bool" where
  "boundary_before prev = (case prev of None \<Rightarrow> True | Some p \<Rightarrow> \<not> is_word p)"

definition boundary_after :: "string \<Rightarrow> bool" where
  "boundary_after rest = (case rest of [] \<Rightarrow> True | x # xs \<Rightarrow> \<not> is_word x)"

text \<open>
  \<^verbatim>\<open>INFO_RE = re.compile(r"\binfo\b.*?score\s+(cp|mate)\s+(-?\d+)")\<close>. The value is
  \<^verbatim>\<open>int(m.group(2))\<close>.
\<close>

datatype score_kind = Cp | Mate

definition signed_digits :: "string \<Rightarrow> int option" where
  "signed_digits r =
     (if r \<noteq> [] \<and> hd r = CHR ''-'' \<and> takeWhile is_digit (tl r) \<noteq> []
        then Some (- int (digits_val (takeWhile is_digit (tl r))))
      else if takeWhile is_digit r \<noteq> [] then Some (int (digits_val (takeWhile is_digit r)))
      else None)"

definition after_kind :: "score_kind \<Rightarrow> string \<Rightarrow> (score_kind \<times> int) option" where
  "after_kind k r =
     (if takeWhile is_space r = [] then None
      else map_option (\<lambda>v. (k, v)) (signed_digits (dropWhile is_space r)))"

definition score_kind_at :: "string \<Rightarrow> (score_kind \<times> int) option" where
  "score_kind_at s =
     (if take 5 s = ''score'' \<and> takeWhile is_space (drop 5 s) \<noteq> [] then
        (let r = dropWhile is_space (drop 5 s) in
         if take 2 r = ''cp'' then after_kind Cp (drop 2 r)
         else if take 4 r = ''mate'' then after_kind Mate (drop 4 r)
         else None)
      else None)"

fun find_score_kind :: "string \<Rightarrow> (score_kind \<times> int) option" where
  "find_score_kind [] = None"
| "find_score_kind (c # cs) =
     (case score_kind_at (c # cs) of
        Some r \<Rightarrow> Some r
      | None \<Rightarrow> if c = CHR 0x0A then None else find_score_kind cs)"

fun info_search_from :: "char option \<Rightarrow> string \<Rightarrow> (score_kind \<times> int) option" where
  "info_search_from prev [] = None"
| "info_search_from prev (c # cs) =
     (if boundary_before prev \<and> take 4 (c # cs) = ''info'' \<and> boundary_after (drop 4 (c # cs)) then
        (case find_score_kind (drop 4 (c # cs)) of
           Some r \<Rightarrow> Some r
         | None \<Rightarrow> info_search_from (Some c) cs)
      else info_search_from (Some c) cs)"

definition info_search :: "string \<Rightarrow> (score_kind \<times> int) option" where
  "info_search line = info_search_from None line"

text \<open>\<^verbatim>\<open>BESTMOVE_RE = re.compile(r"\bbestmove\s+([^\s]+)")\<close>.\<close>

fun bestmove_search_from :: "char option \<Rightarrow> string \<Rightarrow> string option" where
  "bestmove_search_from prev [] = None"
| "bestmove_search_from prev (c # cs) =
     (if boundary_before prev \<and> take 8 (c # cs) = ''bestmove'' \<and>
         takeWhile is_space (drop 8 (c # cs)) \<noteq> [] \<and>
         dropWhile is_space (drop 8 (c # cs)) \<noteq> []
      then Some (takeWhile (\<lambda>x. \<not> is_space x) (dropWhile is_space (drop 8 (c # cs))))
      else bestmove_search_from (Some c) cs)"

definition bestmove_search :: "string \<Rightarrow> string option" where
  "bestmove_search line = bestmove_search_from None line"

text \<open>
  \<^verbatim>\<open>extract_eval_spikes.parse_log\<close>; \<open>include_re\<close> and \<open>exclude_re\<close> are the optional
  user filters, as the predicate \<^verbatim>\<open>r.search(line)\<close>. The state is
  \<open>(evals, moves, cur_eval)\<close>.
  \<^verbatim>\<open>
  for line in f:
      if include_re and not include_re.search(line): continue
      if exclude_re and exclude_re.search(line): continue
      m = INFO_RE.search(line)
      if m:
          kind, val = m.group(1), int(m.group(2))
          if kind == "cp": cur_eval = val
          else: cur_eval = 100000 if val > 0 else -100000
          continue
      m = BESTMOVE_RE.search(line)
      if m:
          mv = m.group(1)
          moves.append(mv)
          if cur_eval is None and evals: evals.append(evals[-1])
          elif cur_eval is None: evals.append(0)
          else: evals.append(cur_eval)
          cur_eval = None
          continue
  return evals, moves
  \<close>
\<close>

definition line_skipped :: "(string \<Rightarrow> bool) option \<Rightarrow> (string \<Rightarrow> bool) option \<Rightarrow> string \<Rightarrow> bool" where
  "line_skipped include_re exclude_re line \<longleftrightarrow>
     (case include_re of Some f \<Rightarrow> \<not> f line | None \<Rightarrow> False) \<or>
     (case exclude_re of Some f \<Rightarrow> f line | None \<Rightarrow> False)"

fun parse_loop ::
  "(string \<Rightarrow> bool) option \<Rightarrow> (string \<Rightarrow> bool) option \<Rightarrow> string list \<Rightarrow>
   int list \<times> string list \<times> int option \<Rightarrow> int list \<times> string list \<times> int option" where
  "parse_loop include_re exclude_re [] st = st"
| "parse_loop include_re exclude_re (line # rest) (evals, moves, cur_eval) =
     (if line_skipped include_re exclude_re line then
        parse_loop include_re exclude_re rest (evals, moves, cur_eval)
      else
        (case info_search line of
           Some (kind, val) \<Rightarrow>
             parse_loop include_re exclude_re rest
               (evals, moves,
                Some (if kind = Cp then val else if val > 0 then 100000 else - 100000))
         | None \<Rightarrow>
             (case bestmove_search line of
                Some mv \<Rightarrow>
                  parse_loop include_re exclude_re rest
                    (evals @ [case cur_eval of
                                None \<Rightarrow> if evals \<noteq> [] then last evals else 0
                              | Some v \<Rightarrow> v],
                     moves @ [mv], None)
              | None \<Rightarrow> parse_loop include_re exclude_re rest (evals, moves, cur_eval))))"

definition parse_log ::
  "(string \<Rightarrow> bool) option \<Rightarrow> (string \<Rightarrow> bool) option \<Rightarrow> string list \<Rightarrow> int list \<times> string list" where
  "parse_log include_re exclude_re lines =
     (case parse_loop include_re exclude_re lines ([], [], None) of
        (evals, moves, cur_eval) \<Rightarrow> (evals, moves))"

text \<open>
  \<^verbatim>\<open>make_targets_from_moves.main\<close> builds the same series from structured records
  (one JSON object per move); \<open>mv_eval_cp\<close> and \<open>mv_eval_mate\<close> are the fields
  \<^verbatim>\<open>eval_cp\<close> and \<^verbatim>\<open>eval_mate\<close> where they hold an integer. The state is
  \<open>(evals, cur_eval)\<close>.
  \<^verbatim>\<open>
  cur_eval = None
  for r in recs_sorted:
      cp = r.get("eval_cp"); mate = r.get("eval_mate")
      cp_val = None
      if isinstance(cp, int): cp_val = cp
      elif isinstance(mate, int): cp_val = 100000 if mate > 0 else -100000
      if cp_val is not None: cur_eval = cp_val
      if cur_eval is None: cur_eval = evals[-1] if evals else 0
      evals.append(cur_eval)
  \<close>
\<close>

record move_rec =
  mv_eval_cp :: "int option"
  mv_eval_mate :: "int option"

fun evals_loop :: "move_rec list \<Rightarrow> int list \<times> int option \<Rightarrow> int list \<times> int option" where
  "evals_loop [] st = st"
| "evals_loop (r # rs) (evals, cur_eval) =
     (let cp_val =
            (case mv_eval_cp r of
               Some cp \<Rightarrow> Some cp
             | None \<Rightarrow>
                 (case mv_eval_mate r of
                    Some mate \<Rightarrow> Some (if mate > 0 then 100000 else - 100000)
                  | None \<Rightarrow> None));
          cur1 = (case cp_val of Some v \<Rightarrow> Some v | None \<Rightarrow> cur_eval);
          cur2 = (case cur1 of None \<Rightarrow> (if evals \<noteq> [] then last evals else 0) | Some v \<Rightarrow> v)
      in evals_loop rs (evals @ [cur2], Some cur2))"

definition moves_evals :: "move_rec list \<Rightarrow> int list" where
  "moves_evals recs = fst (evals_loop recs ([], None))"

text \<open>
  What a transcript line is to the parser, and the most recent evaluation reading since
  the previous decision line (scanning backwards from the end).
\<close>

datatype event = Reading score_kind int | Decision string | Ignored

definition classify :: "(string \<Rightarrow> bool) option \<Rightarrow> (string \<Rightarrow> bool) option \<Rightarrow> string \<Rightarrow> event" where
  "classify include_re exclude_re line =
     (if line_skipped include_re exclude_re line then Ignored
      else
        (case info_search line of
           Some (kind, val) \<Rightarrow> Reading kind val
         | None \<Rightarrow> (case bestmove_search line of Some mv \<Rightarrow> Decision mv | None \<Rightarrow> Ignored)))"

fun reading_before :: "event list \<Rightarrow> (score_kind \<times> int) option" where
  "reading_before [] = None"
| "reading_before (Reading kind val # earlier) = Some (kind, val)"
| "reading_before (Decision mv # earlier) = None"
| "reading_before (Ignored # earlier) = reading_before earlier"

definition pending_reading :: "event list \<Rightarrow> (score_kind \<times> int) option" where
  "pending_reading events = reading_before (rev events)"

definition normalize :: "score_kind \<times> int \<Rightarrow> int" where
  "normalize r = (case r of (Cp, v) \<Rightarrow> v | (Mate, n) \<Rightarrow> if n > 0 then 100000 else - 100000)"

definition example_log :: "string list" where
  "example_log =
     [''position startpos'',
      ''bestmove 3c3d'',
      ''info depth 9 score cp 55'',
      ''info depth 10 score mate -7'',
      ''bestmove 2g2f'',
      ''info string x'',
      ''bestmove 8c8d'',
      ''info score mate 1'',
      ''info score cp -40'',
      ''bestmove resign'']"

section \<open>Metrics aggregation (summarize\_drop\_metrics.py, summarize\_first\_bad\_metrics.py)\<close>

text \<open>
  A row of \<^verbatim>\<open>summary.json\<close>, as \<^verbatim>\<open>run_eval_targets.py\<close> writes it:
  \<^verbatim>\<open>{'tag':..., 'profile':..., 'eval_cp': cp, 'depth': depth}\<close>. \<open>eval_cp\<close> is an integer
  or null (\<open>None\<close>). The aggregation reads \<^verbatim>\<open>r.get('depth', -1)\<close> and tests
  \<^verbatim>\<open>isinstance(d, int)\<close>, so the field is kept as it is found: absent (\<open>None\<close>), an
  integer, or a value that is not an integer.
\<close>

datatype depth_val = DInt int | DNotInt

record result_row =
  row_tag :: string
  row_profile :: string
  eval_cp :: "int option"
  depth :: "depth_val option"














section \<open>SPSA optimizer: clamping and snapping (spsa\_optimize.py)\<close>

text \<open>
  \<^verbatim>\<open>
  def clamp_step(x, mn, mx, step):
      x = max(mn, min(mx, x))
      if step and step>1:
          r = round((x - mn) / step) * step + mn
          r = max(mn, min(mx, r))
          return int(r)
      return int(x)
  \<close>
  All four arguments are Python integers at every call site. \<^verbatim>\<open>(x - mn) / step\<close> is true
  division and \<^verbatim>\<open>round\<close> rounds half to even; both are modelled exactly, over the
  rationals (the double-precision quotient agrees with it for magnitudes below \<open>2^52\<close>).
\<close>

definition py_round :: "rat \<Rightarrow> int" where
  "py_round q =
     (let f = \<lfloor>q\<rfloor>; r = q - of_int f in
      if r < 1 / 2 then f
      else if 1 / 2 < r then f + 1
      else if even f then f else f + 1)"

definition clamp_step :: "int \<Rightarrow> int \<Rightarrow> int \<Rightarrow> int \<Rightarrow> int" where
  "clamp_step x mn mx step =
     (let x1 = max mn (min mx x) in
      if step \<noteq> 0 \<and> step > 1 then
        (let r = py_round (of_int (x1 - mn) / of_int step) * step + mn;
             r1 = max mn (min mx r)
         in r1)
      else x1)"

text \<open>
  One entry of \<^verbatim>\<open>cfg['params']\<close>; \<open>p_step\<close> is \<^verbatim>\<open>int(pc.get('step',1))\<close>.
\<close>

record param_cfg =
  p_init :: int
  p_min :: int
  p_max :: int
  p_step :: int

text \<open>
  The perturbation size of one component:
  \<^verbatim>\<open>
  d = int(round(ck * step)) if step>0 else int(round(ck))
  if d < 1: d = 1
  \<close>
\<close>

definition perturb_d :: "rat \<Rightarrow> int \<Rightarrow> int" where
  "perturb_d ck step =
     (let d = (if step > 0 then py_round (ck * of_int step) else py_round ck)
      in if d < 1 then 1 else d)"

text \<open>
  The two perturbed vectors of one iteration. \<open>params_cfg\<close> and \<open>theta\<close> are dictionaries
  with the same keys; \<open>delta_sign\<close> is the drawn sign (\<open>1\<close> or \<open>-1\<close>) of each key.
  \<^verbatim>\<open>
  theta_plus[k]  = clamp_step(theta[k] + delta_sign[k]*d, pc['min'], pc['max'], step)
  theta_minus[k] = clamp_step(theta[k] - delta_sign[k]*d, pc['min'], pc['max'], step)
  \<close>
\<close>

definition theta_plus :: "(string \<rightharpoonup> param_cfg) \<Rightarrow> (string \<rightharpoonup> int) \<Rightarrow> (string \<Rightarrow> int) \<Rightarrow> rat \<Rightarrow> (string \<rightharpoonup> int)" where
  "theta_plus params_cfg theta delta_sign ck k =
     (case (params_cfg k, theta k) of
        (Some pc, Some t) \<Rightarrow>
          Some (clamp_step (t + delta_sign k * perturb_d ck (p_step pc)) (p_min pc) (p_max pc) (p_step pc))
      | _ \<Rightarrow> None)"

definition theta_minus :: "(string \<rightharpoonup> param_cfg) \<Rightarrow> (string \<rightharpoonup> int) \<Rightarrow> (string \<Rightarrow> int) \<Rightarrow> rat \<Rightarrow> (string \<rightharpoonup> int)" where
  "theta_minus params_cfg theta delta_sign ck k =
     (case (params_cfg k, theta k) of
        (Some pc, Some t) \<Rightarrow>
          Some (clamp_step (t - delta_sign k * perturb_d ck (p_step pc)) (p_min pc) (p_max pc) (p_step pc))
      | _ \<Rightarrow> None)"

text \<open>
  The update of one iteration, from the two objective values (\<^verbatim>\<open>None\<close> read as \<open>0.0\<close>):
  \<^verbatim>\<open>
  Jp = m_plus['spike_rate_percent'] or 0.0
  Jm = m_minus['spike_rate_percent'] or 0.0
  d = max(abs(theta_plus[k] - theta_minus[k]), 1)
  g[k] = (Jp - Jm) / d
  newv = theta[k] - ak * g[k] * pc.get('step',1)
  theta[k] = clamp_step(int(round(newv)), pc['min'], pc['max'], int(pc.get('step',1)))
  \<close>
  The gains and objective values are floats in the source and rationals here.
\<close>

definition or_zero :: "rat option \<Rightarrow> rat" where
  "or_zero J = (case J of None \<Rightarrow> 0 | Some v \<Rightarrow> v)"

definition spsa_update ::
  "(string \<rightharpoonup> param_cfg) \<Rightarrow> rat \<Rightarrow> rat option \<Rightarrow> rat option \<Rightarrow>
   (string \<rightharpoonup> int) \<Rightarrow> (string \<rightharpoonup> int) \<Rightarrow> (string \<rightharpoonup> int) \<Rightarrow> (string \<rightharpoonup> int)" where
  "spsa_update params_cfg ak m_plus m_minus tp tm theta k =
     (case (params_cfg k, theta k, tp k, tm k) of
        (Some pc, Some t, Some vp, Some vm) \<Rightarrow>
          (let Jp = or_zero m_plus; Jm = or_zero m_minus;
               d = max \<bar>vp - vm\<bar> 1;
               g = (Jp - Jm) / of_int d;
               newv = of_int t - ak * g * of_int (p_step pc)
           in Some (clamp_step (py_round newv) (p_min pc) (p_max pc) (p_step pc)))
      | _ \<Rightarrow> None)"

text \<open>
  One whole iteration: perturb, evaluate both candidates with the objective \<open>J\<close> (the
  engine runs and the metrics script, external to this file), update.
\<close>

definition spsa_iteration ::
  "(string \<rightharpoonup> param_cfg) \<Rightarrow> rat \<Rightarrow> rat \<Rightarrow> (string \<Rightarrow> int) \<Rightarrow>
   ((string \<rightharpoonup> int) \<Rightarrow> rat option) \<Rightarrow> (string \<rightharpoonup> int) \<Rightarrow> (string \<rightharpoonup> int)" where
  "spsa_iteration params_cfg ak ck delta_sign J theta =
     (let tp = theta_plus params_cfg theta delta_sign ck;
          tm = theta_minus params_cfg theta delta_sign ck
      in spsa_update params_cfg ak (J tp) (J tm) tp tm theta)"

definition in_domain :: "param_cfg \<Rightarrow> int \<Rightarrow> bool" where
  "in_domain pc v \<longleftrightarrow> p_min pc \<le> v \<and> v \<le> p_max pc"

definition on_grid :: "param_cfg \<Rightarrow> int \<Rightarrow> bool" where
  "on_grid pc v \<longleftrightarrow> p_step pc dvd (v - p_min pc)"

text \<open>
  The first tunable of the example configuration in the module's docstring,
  \<^verbatim>\<open>"LMR_K_x100": {"init": 160, "min": 120, "max": 200, "step": 2}\<close>, and the initial vector
  built from it.
\<close>

definition example_pc :: param_cfg where
  "example_pc = \<lparr>p_init = 160, p_min = 120, p_max = 200, p_step = 2\<rparr>"

definition example_cfg :: "string \<rightharpoonup> param_cfg" where
  "example_cfg = [''LMR_K_x100'' \<mapsto> example_pc]"

definition example_theta :: "string \<rightharpoonup> int" where
  "example_theta = [''LMR_K_x100'' \<mapsto> 160]"

text \<open>
  A domain whose width is not a multiple of its step.
\<close>

definition ragged_pc :: param_cfg where
  "ragged_pc = \<lparr>p_init = 196, p_min = 100, p_max = 206, p_step = 10\<rparr>"

section \<open>Regression suite (run\_regression\_checks.py)\<close>

text \<open>
  The dataclasses \<^verbatim>\<open>PrefixGuard\<close>, \<^verbatim>\<open>Scenario\<close> (the fields the checks read; the others
  only parameterise the replay) and \<^verbatim>\<open>PrefixResult\<close>.
\<close>

record prefix_guard =
  pg_number :: int
  pg_allowed_moves :: "string list option"
  pg_min_cp :: "int option"
  pg_max_cp :: "int option"

record scenario =
  scn_name :: string
  scn_prefixes :: "int list"
  score_cp_min :: "int option"
  score_cp_max :: "int option"
  seldepth_max :: "int option"
  prefix_guards :: "prefix_guard list"

record prefix_result =
  pr_bestmove :: string
  pr_depth :: int
  pr_seldepth :: int
  pr_score_cp :: int

text \<open>
  The failure reasons: one constructor per \<^verbatim>\<open>raise RuntimeError(f"...")\<close>, carrying the
  values the message interpolates; \<open>ReplayFailed\<close> stands for whatever \<^verbatim>\<open>_run_replay\<close>
  raises (a failed subprocess or a missing summary file).
\<close>

datatype failure =
    ReplayFailed string
  | SummaryMissingData "int list"
  | PrefixMissing int
  | ScoreBelowMin int int int
  | ScoreAboveMax int int int
  | SeldepthAboveMax int int int
  | GuardMissing int
  | BestmoveNotAllowed int string "string list"
  | ScoreBelowGuardMin int int int
  | ScoreAboveGuardMax int int int

text \<open>
  A Python \<^verbatim>\<open>dict\<close> with its insertion order: an association list with distinct keys.
  Assigning to an existing key keeps its place; a new key goes to the end.
\<close>

fun dict_get :: "('k \<times> 'v) list \<Rightarrow> 'k \<Rightarrow> 'v option" where
  "dict_get [] k = None"
| "dict_get ((k', v) # kvs) k = (if k' = k then Some v else dict_get kvs k)"

fun dict_set :: "'k \<Rightarrow> 'v \<Rightarrow> ('k \<times> 'v) list \<Rightarrow> ('k \<times> 'v) list" where
  "dict_set k v [] = [(k, v)]"
| "dict_set k v ((k', v') # kvs) = (if k' = k then (k, v) # kvs else (k', v') # dict_set k v kvs)"

text \<open>
  A line of the replay summary as \<^verbatim>\<open>_parse_summary\<close> reads it: matched by
  \<^verbatim>\<open>RE_BESTMOVE\<close> (prefix number, move), else by \<^verbatim>\<open>RE_INFO\<close> (prefix number, depth,
  seldepth, score, and whether the line contains \<^verbatim>\<open>score mate\<close>), else skipped (blank
  lines and comments included).
  \<^verbatim>\<open>
  m = RE_BESTMOVE.match(line)
  if m:
      num = int(m.group("num")); best = m.group("move")
      results.setdefault(num, PrefixResult(best, 0, 0, 0)).bestmove = best
      continue
  m = RE_INFO.match(line)
  if m:
      ...
      if line.find("score mate") != -1:
          score = 100000 if score > 0 else -100000
      res = results.setdefault(num, PrefixResult("(unknown)", 0, 0, 0))
      res.depth = depth; res.seldepth = seldepth; res.score_cp = score
  \<close>
\<close>

datatype summary_line =
    BestmoveLine int string
  | InfoLine int int int int bool
  | OtherLine

fun summary_step :: "(int \<times> prefix_result) list \<Rightarrow> summary_line \<Rightarrow> (int \<times> prefix_result) list" where
  "summary_step results (BestmoveLine num best) =
     (case dict_get results num of
        None \<Rightarrow> dict_set num \<lparr>pr_bestmove = best, pr_depth = 0, pr_seldepth = 0, pr_score_cp = 0\<rparr> results
      | Some res \<Rightarrow> dict_set num (res\<lparr>pr_bestmove := best\<rparr>) results)"
| "summary_step results (InfoLine num d sd sc is_mate) =
     (let score = (if is_mate then (if sc > 0 then 100000 else - 100000) else sc);
          res = (case dict_get results num of
                   None \<Rightarrow> \<lparr>pr_bestmove = ''(unknown)'', pr_depth = 0, pr_seldepth = 0, pr_score_cp = 0\<rparr>
                 | Some r \<Rightarrow> r)
      in dict_set num (res\<lparr>pr_depth := d, pr_seldepth := sd, pr_score_cp := score\<rparr>) results)"
| "summary_step results OtherLine = results"

text \<open>
  \<^verbatim>\<open>
  missing = [p for p in results if results[p].bestmove == "(unknown)"]
  if missing:
      raise RuntimeError(f"summary missing data for prefixes: {missing}")
  return results
  \<close>
\<close>

definition parse_summary :: "summary_line list \<Rightarrow> failure + (int \<times> prefix_result) list" where
  "parse_summary summary =
     (let results = foldl summary_step [] summary;
          missing = map fst (filter (\<lambda>(p, r). pr_bestmove r = ''(unknown)'') results)
      in if missing \<noteq> [] then Inl (SummaryMissingData missing) else Inr results)"

text \<open>
  \<^verbatim>\<open>_check_bounds\<close>, first loop: the declared prefixes, in order, against the global
  bounds. \<open>None\<close> means that nothing was raised.
\<close>

fun check_prefixes :: "scenario \<Rightarrow> (int \<times> prefix_result) list \<Rightarrow> int list \<Rightarrow> failure option" where
  "check_prefixes scn results [] = None"
| "check_prefixes scn results (p # ps) =
     (case dict_get results p of
        None \<Rightarrow> Some (PrefixMissing p)
      | Some res \<Rightarrow>
          if (case score_cp_min scn of Some mn \<Rightarrow> pr_score_cp res < mn | None \<Rightarrow> False)
            then Some (ScoreBelowMin p (pr_score_cp res) (the (score_cp_min scn)))
          else if (case score_cp_max scn of Some mx \<Rightarrow> pr_score_cp res > mx | None \<Rightarrow> False)
            then Some (ScoreAboveMax p (pr_score_cp res) (the (score_cp_max scn)))
          else if (case seldepth_max scn of Some mx \<Rightarrow> pr_seldepth res > mx | None \<Rightarrow> False)
            then Some (SeldepthAboveMax p (pr_seldepth res) (the (seldepth_max scn)))
          else check_prefixes scn results ps)"

text \<open>
  Second loop: \<^verbatim>\<open>guard_map = {pg.number: pg for pg in scn.prefix_guards}\<close>, then each
  guard in the dictionary's order. An empty or absent \<^verbatim>\<open>allowed_moves\<close> is falsy.
\<close>

definition guard_map :: "scenario \<Rightarrow> (int \<times> prefix_guard) list" where
  "guard_map scn = foldl (\<lambda>m pg. dict_set (pg_number pg) pg m) [] (prefix_guards scn)"

fun check_guards :: "(int \<times> prefix_result) list \<Rightarrow> (int \<times> prefix_guard) list \<Rightarrow> failure option" where
  "check_guards results [] = None"
| "check_guards results ((number, guard) # gs) =
     (case dict_get results number of
        None \<Rightarrow> Some (GuardMissing number)
      | Some res \<Rightarrow>
          if (case pg_allowed_moves guard of
                Some am \<Rightarrow> am \<noteq> [] \<and> pr_bestmove res \<notin> set am
              | None \<Rightarrow> False)
            then Some (BestmoveNotAllowed number (pr_bestmove res) (the (pg_allowed_moves guard)))
          else if (case pg_min_cp guard of Some mn \<Rightarrow> pr_score_cp res < mn | None \<Rightarrow> False)
            then Some (ScoreBelowGuardMin number (pr_score_cp res) (the (pg_min_cp guard)))
          else if (case pg_max_cp guard of Some mx \<Rightarrow> pr_score_cp res > mx | None \<Rightarrow> False)
            then Some (ScoreAboveGuardMax number (pr_score_cp res) (the (pg_max_cp guard)))
          else check_guards results gs)"

definition check_bounds :: "scenario \<Rightarrow> (int \<times> prefix_result) list \<Rightarrow> failure + unit" where
  "check_bounds scn results =
     (case check_prefixes scn results (scn_prefixes scn) of
        Some f \<Rightarrow> Inl f
      | None \<Rightarrow> (case check_guards results (guard_map scn) of Some f \<Rightarrow> Inl f | None \<Rightarrow> Inr ()))"

text \<open>
  The body of the \<^verbatim>\<open>try\<close> in \<^verbatim>\<open>RegressionSuite.run\<close>. \<open>replay\<close> is \<^verbatim>\<open>_run_replay\<close>
  followed by the reading of the summary file: the engine runs are external, and give
  either an exception or the summary's lines. On success the number of parsed prefixes is
  returned (it is printed with \<^verbatim>\<open>PASS\<close>).
\<close>

definition run_scenario :: "(scenario \<Rightarrow> failure + summary_line list) \<Rightarrow> scenario \<Rightarrow> failure + nat" where
  "run_scenario replay scn =
     (case replay scn of
        Inl e \<Rightarrow> Inl e
      | Inr summary \<Rightarrow>
          (case parse_summary summary of
             Inl e \<Rightarrow> Inl e
           | Inr results \<Rightarrow>
               (case check_bounds scn results of
                  Inl e \<Rightarrow> Inl e
                | Inr u \<Rightarrow> Inr (length results))))"

text \<open>
  \<^verbatim>\<open>
  failures = []
  for scn in self.scenarios:
      print(f"[regressions] scenario={scn.name}")
      try:
          ...
          print(f"  -> PASS ({len(results)} prefixes)")
      except Exception as exc:
          failures.append((scn.name, str(exc)))
          print(f"  -> FAIL: {exc}")
  if failures:
      print("\nFailures:")
      for name, msg in failures:
          print(f"  - {name}: {msg}")
      return 1
  return 0
  \<close>
  The state of the loop is \<open>(failures, printed)\<close>; the result of \<open>run\<close> is the exit code
  with everything printed.
\<close>

datatype report_line =
    ScenarioStarted string
  | ScenarioPass nat
  | ScenarioFail failure
  | FailuresHeader
  | FailureEntry string failure

fun run_loop ::
  "(scenario \<Rightarrow> failure + summary_line list) \<Rightarrow> scenario list \<Rightarrow>
   (string \<times> failure) list \<times> report_line list \<Rightarrow> (string \<times> failure) list \<times> report_line list" where
  "run_loop replay [] st = st"
| "run_loop replay (scn # scns) (failures, printed) =
     (case run_scenario replay scn of
        Inr n \<Rightarrow>
          run_loop replay scns
            (failures, printed @ [ScenarioStarted (scn_name scn), ScenarioPass n])
      | Inl exc \<Rightarrow>
          run_loop replay scns
            (failures @ [(scn_name scn, exc)],
             printed @ [ScenarioStarted (scn_name scn), ScenarioFail exc]))"

definition suite_run ::
  "(scenario \<Rightarrow> failure + summary_line list) \<Rightarrow> scenario list \<Rightarrow> int \<times> report_line list" where
  "suite_run replay scenarios =
     (case run_loop replay scenarios ([], []) of
        (failures, printed) \<Rightarrow>
          if failures \<noteq> [] then
            (1, printed @ [FailuresHeader] @ map (\<lambda>(name, msg). FailureEntry name msg) failures)
          else (0, printed))"


text \<open>
  Every violation the checks of \<^verbatim>\<open>_check_bounds\<close> could report, in checking order: for
  a declared prefix its absence or else each global bound it breaks, then for each guard
  its absence or else each restriction it breaks.
\<close>

definition prefix_violations :: "scenario \<Rightarrow> (int \<times> prefix_result) list \<Rightarrow> int \<Rightarrow> failure list" where
  "prefix_violations scn results p =
     (case dict_get results p of
        None \<Rightarrow> [PrefixMissing p]
      | Some res \<Rightarrow>
          (case score_cp_min scn of
             Some mn \<Rightarrow> if pr_score_cp res < mn then [ScoreBelowMin p (pr_score_cp res) mn] else []
           | None \<Rightarrow> []) @
          (case score_cp_max scn of
             Some mx \<Rightarrow> if pr_score_cp res > mx then [ScoreAboveMax p (pr_score_cp res) mx] else []
           | None \<Rightarrow> []) @
          (case seldepth_max scn of
             Some mx \<Rightarrow> if pr_seldepth res > mx then [SeldepthAboveMax p (pr_seldepth res) mx] else []
           | None \<Rightarrow> []))"

definition guard_violations :: "(int \<times> prefix_result) list \<Rightarrow> int \<times> prefix_guard \<Rightarrow> failure list" where
  "guard_violations results ng =
     (case ng of (number, guard) \<Rightarrow>
       (case dict_get results number of
          None \<Rightarrow> [GuardMissing number]
        | Some res \<Rightarrow>
            (case pg_allowed_moves guard of
               Some am \<Rightarrow>
                 if am \<noteq> [] \<and> pr_bestmove res \<notin> set am
                 then [BestmoveNotAllowed number (pr_bestmove res) am] else []
             | None \<Rightarrow> []) @
            (case pg_min_cp guard of
               Some mn \<Rightarrow>
                 if pr_score_cp res < mn then [ScoreBelowGuardMin number (pr_score_cp res) mn] else []
             | None \<Rightarrow> []) @
            (case pg_max_cp guard of
               Some mx \<Rightarrow>
                 if pr_score_cp res > mx then [ScoreAboveGuardMax number (pr_score_cp res) mx] else []
             | None \<Rightarrow> [])))"

definition violations :: "scenario \<Rightarrow> (int \<times> prefix_result) list \<Rightarrow> failure list" where
  "violations scn results =
     concat (map (prefix_violations scn results) (scn_prefixes scn)) @
     concat (map (guard_violations results) (guard_map scn))"

text \<open>The prefix numbers a summary has a line for.\<close>

fun line_number :: "summary_line \<Rightarrow> int option" where
  "line_number (BestmoveLine num best) = Some num"
| "line_number (InfoLine num d sd sc is_mate) = Some num"
| "line_number OtherLine = None"

definition summary_numbers :: "summary_line list \<Rightarrow> int list" where
  "summary_numbers summary = List.map_filter line_number summary"

text \<open>The verdict printed for a scenario.\<close>

definition verdict :: "(scenario \<Rightarrow> failure + summary_line list) \<Rightarrow> scenario \<Rightarrow> report_line list" where
  "verdict replay scn =
     [ScenarioStarted (scn_name scn),
      (case run_scenario replay scn of Inr n \<Rightarrow> ScenarioPass n | Inl exc \<Rightarrow> ScenarioFail exc)]"

definition failure_of :: "(scenario \<Rightarrow> failure + summary_line list) \<Rightarrow> scenario \<Rightarrow> (string \<times> failure) option" where
  "failure_of replay scn =
     (case run_scenario replay scn of Inr n \<Rightarrow> None | Inl exc \<Rightarrow> Some (scn_name scn, exc))"

text \<open>Two example scenarios and a replay that answers both.\<close>

definition scn_a :: scenario where
  "scn_a = \<lparr>scn_name = ''a'', scn_prefixes = [10, 20], score_cp_min = Some 0,
            score_cp_max = None, seldepth_max = None, prefix_guards = []\<rparr>"

definition scn_b :: scenario where
  "scn_b = \<lparr>scn_name = ''b'', scn_prefixes = [10, 20], score_cp_min = Some (- 100),
            score_cp_max = None, seldepth_max = None, prefix_guards = []\<rparr>"

definition scn_c :: scenario where
  "scn_c = \<lparr>scn_name = ''c'', scn_prefixes = [10], score_cp_min = Some (- 100),
            score_cp_max = None, seldepth_max = None,
            prefix_guards = [\<lparr>pg_number = 10, pg_allowed_moves = Some [''7g7f''],
                               pg_min_cp = None, pg_max_cp = None\<rparr>]\<rparr>"

definition summary_10 :: "summary_line list" where
  "summary_10 = [OtherLine, BestmoveLine 10 ''7g7f'', InfoLine 10 5 7 (- 5) False]"

definition replay_10 :: "scenario \<Rightarrow> failure + summary_line list" where
  "replay_10 scn = Inr summary_10"

section \<open>Position rewind (chop\_moves) and target generation\<close>

text \<open>
  The string operations the three \<^verbatim>\<open>chop_moves\<close> use. \<open>has_sub sep s\<close> is \<^verbatim>\<open>sep in s\<close>;
  \<open>split_once sep s\<close> is \<^verbatim>\<open>s.split(sep, 1)\<close> where \<open>sep\<close> occurs in \<open>s\<close> (the parts
  before and after the first occurrence) and \<open>None\<close> where it does not; \<open>sep\<close> is not
  empty.
\<close>

fun has_sub :: "string \<Rightarrow> string \<Rightarrow> bool" where
  "has_sub sep [] = (sep = [])"
| "has_sub sep (c # cs) = (take (length sep) (c # cs) = sep \<or> has_sub sep cs)"

fun split_once :: "string \<Rightarrow> string \<Rightarrow> (string \<times> string) option" where
  "split_once sep [] = None"
| "split_once sep (c # cs) =
     (if take (length sep) (c # cs) = sep then Some ([], drop (length sep) (c # cs))
      else map_option (\<lambda>(h, r). (c # h, r)) (split_once sep cs))"

text \<open>
  \<^verbatim>\<open>s.strip()\<close>, \<^verbatim>\<open>s.split()\<close> (runs of whitespace separate the tokens, none of which is
  empty) and \<^verbatim>\<open>' '.join(toks)\<close>.
\<close>

definition py_strip :: "string \<Rightarrow> string" where
  "py_strip s = rev (dropWhile is_space (rev (dropWhile is_space s)))"

fun split_ws :: "string \<Rightarrow> string \<Rightarrow> string list" where
  "split_ws cur [] = (if cur = [] then [] else [cur])"
| "split_ws cur (c # cs) =
     (if is_space c then (if cur = [] then split_ws [] cs else cur # split_ws [] cs)
      else split_ws (cur @ [c]) cs)"

definition py_split :: "string \<Rightarrow> string list" where
  "py_split s = split_ws [] s"

fun join_sp :: "string list \<Rightarrow> string" where
  "join_sp [] = []"
| "join_sp [t] = t"
| "join_sp (t # u # ts) = t @ '' '' @ join_sp (u # ts)"

text \<open>\<^verbatim>\<open>toks = [t for t in moves.strip().split() if t]\<close>\<close>

definition move_tokens :: "string \<Rightarrow> string list" where
  "move_tokens moves = filter (\<lambda>t. t \<noteq> []) (py_split (py_strip moves))"

text \<open>
  \<^verbatim>\<open>expand_targets_back.chop_moves\<close>:
  \<^verbatim>\<open>
  if not pos_line: return pos_line
  if ' moves ' not in pos_line: return pos_line
  head, moves = pos_line.split(' moves ', 1)
  toks = [t for t in moves.strip().split() if t]
  if back_plies > 0 and len(toks) >= back_plies:
      toks = toks[:-back_plies]
  return f"{head} moves {' '.join(toks)}" if toks else head
  \<close>
\<close>

definition chop_moves_back :: "string \<Rightarrow> int \<Rightarrow> string" where
  "chop_moves_back pos_line back_plies =
     (if pos_line = [] then pos_line
      else
        (case split_once '' moves '' pos_line of
           None \<Rightarrow> pos_line
         | Some (head, moves) \<Rightarrow>
             (let toks = move_tokens moves;
                  toks1 = (if back_plies > 0 \<and> int (length toks) \<ge> back_plies
                           then take (length toks - nat back_plies) toks else toks)
              in if toks1 \<noteq> [] then head @ '' moves '' @ join_sp toks1 else head)))"

text \<open>
  \<^verbatim>\<open>POS_MOVES_SPLIT_RE.split(pos_line, maxsplit=1)[0]\<close> with
  \<^verbatim>\<open>POS_MOVES_SPLIT_RE = re.compile(r"\b moves \b")\<close>: the text before the first
  \<^verbatim>\<open> moves \<close> that stands between two word characters, or the whole string.
\<close>

definition word_before :: "char option \<Rightarrow> bool" where
  "word_before prev = (case prev of None \<Rightarrow> False | Some p \<Rightarrow> is_word p)"

definition word_after :: "string \<Rightarrow> bool" where
  "word_after rest = (case rest of [] \<Rightarrow> False | x # xs \<Rightarrow> is_word x)"

fun re_head_from :: "char option \<Rightarrow> string \<Rightarrow> string" where
  "re_head_from prev [] = []"
| "re_head_from prev (c # cs) =
     (if take 7 (c # cs) = '' moves '' \<and> word_before prev \<and> word_after (drop 7 (c # cs)) then []
      else c # re_head_from (Some c) cs)"

definition re_head :: "string \<Rightarrow> string" where
  "re_head pos_line = re_head_from None pos_line"

text \<open>
  \<^verbatim>\<open>make_targets_from_logs.chop_moves\<close> (the argument may be \<^verbatim>\<open>None\<close>):
  \<^verbatim>\<open>
  if not pos_line: return None
  if " moves " not in pos_line or back_plies <= 0: return pos_line
  head, moves = POS_MOVES_SPLIT_RE.split(pos_line, maxsplit=1)[0], pos_line.split(" moves ", 1)[1]
  toks = [t for t in moves.strip().split() if t]
  if len(toks) >= back_plies: toks = toks[: -back_plies]
  else: toks = []
  return f"{head} moves {' '.join(toks)}" if toks else head
  \<close>
\<close>

definition chop_moves_logs :: "string option \<Rightarrow> int \<Rightarrow> string option" where
  "chop_moves_logs pos_line back_plies =
     (case pos_line of
        None \<Rightarrow> None
      | Some pl \<Rightarrow>
          if pl = [] then None
          else if \<not> has_sub '' moves '' pl \<or> back_plies \<le> 0 then Some pl
          else
            (case split_once '' moves '' pl of
               None \<Rightarrow> Some pl
             | Some (h, moves) \<Rightarrow>
                 (let head = re_head pl;
                      toks = move_tokens moves;
                      toks1 = (if int (length toks) \<ge> back_plies
                               then take (length toks - nat back_plies) toks else [])
                  in Some (if toks1 \<noteq> [] then head @ '' moves '' @ join_sp toks1 else head))))"

text \<open>
  \<^verbatim>\<open>make_targets_from_moves.chop_moves\<close>: as the previous one, with
  \<^verbatim>\<open>head, moves = pos_line.split(" moves ", 1)\<close>.
\<close>

definition chop_moves_moves :: "string option \<Rightarrow> int \<Rightarrow> string option" where
  "chop_moves_moves pos_line back_plies =
     (case pos_line of
        None \<Rightarrow> None
      | Some pl \<Rightarrow>
          if pl = [] then None
          else if \<not> has_sub '' moves '' pl \<or> back_plies \<le> 0 then Some pl
          else
            (case split_once '' moves '' pl of
               None \<Rightarrow> Some pl
             | Some (head, moves) \<Rightarrow>
                 (let toks = move_tokens moves;
                      toks1 = (if int (length toks) \<ge> back_plies
                               then take (length toks - nat back_plies) toks else [])
                  in Some (if toks1 \<noteq> [] then head @ '' moves '' @ join_sp toks1 else head))))"

text \<open>
  A position string in the specification's terms: a head, and after \<^verbatim>\<open> moves \<close> the move
  tokens separated by single spaces.
\<close>

definition position :: "string \<Rightarrow> string list \<Rightarrow> string" where
  "position head toks = (if toks = [] then head else head @ '' moves '' @ join_sp toks)"

text \<open>Decimal printing of integers, as an f-string does it.\<close>

function str_nat :: "nat \<Rightarrow> string" where
  "str_nat n = (if n < 10 then [char_of (48 + n)] else str_nat (n div 10) @ [char_of (48 + n mod 10)])"
  by pat_completeness auto
termination
  by (relation "measure id") auto

definition str_int :: "int \<Rightarrow> string" where
  "str_int i = (if i < 0 then ''-'' @ str_nat (nat (- i)) else str_nat (nat i))"

text \<open>
  The generation loop of \<^verbatim>\<open>make_targets_from_logs.main\<close>. An entry of \<^verbatim>\<open>best\<close> (the fields
  \<^verbatim>\<open>last_cp\<close>, \<^verbatim>\<open>last_depth\<close> are not read here) and an emitted target:
\<close>

record best_entry =
  be_idx :: nat
  be_bestmove :: string
  be_pos_after :: "string option"

record target =
  tg_tag :: string
  tg_pre_position :: string
  tg_origin_log :: string
  tg_origin_ply :: nat
  tg_origin_delta :: int
  tg_back_plies :: int

text \<open>
  \<^verbatim>\<open>
  for k in range(args.back_min, args.back_max + 1):
      pos = chop_moves(b.get("pos_after"), k)
      if not pos: continue
      if pos in uniq_positions: continue
      uniq_positions.add(pos)
      tag = f"{os.path.splitext(base)[0]}_ply{ply}_back{k}"
      targets.append({"tag": tag, "pre_position": pos, "origin_log": base,
                      "origin_ply": ply, "origin_delta": delta, "back_plies": k})
  \<close>
  The state is \<open>(uniq_positions, targets)\<close>; \<open>stem\<close> is \<^verbatim>\<open>os.path.splitext(base)[0]\<close>.
\<close>

definition new_target :: "string \<Rightarrow> string \<Rightarrow> nat \<Rightarrow> int \<Rightarrow> int \<Rightarrow> string \<Rightarrow> target" where
  "new_target base stem ply delta k pos =
     \<lparr>tg_tag = stem @ ''_ply'' @ str_nat ply @ ''_back'' @ str_int k,
      tg_pre_position = pos, tg_origin_log = base, tg_origin_ply = ply,
      tg_origin_delta = delta, tg_back_plies = k\<rparr>"

fun gen_backs ::
  "string \<Rightarrow> string \<Rightarrow> nat \<Rightarrow> int \<Rightarrow> string option \<Rightarrow> int list \<Rightarrow>
   string set \<times> target list \<Rightarrow> string set \<times> target list" where
  "gen_backs base stem ply delta pos_after [] st = st"
| "gen_backs base stem ply delta pos_after (k # ks) (uniq_positions, targets) =
     (case chop_moves_logs pos_after k of
        None \<Rightarrow> gen_backs base stem ply delta pos_after ks (uniq_positions, targets)
      | Some pos \<Rightarrow>
          if pos = [] then gen_backs base stem ply delta pos_after ks (uniq_positions, targets)
          else if pos \<in> uniq_positions
            then gen_backs base stem ply delta pos_after ks (uniq_positions, targets)
          else gen_backs base stem ply delta pos_after ks
                 (insert pos uniq_positions, targets @ [new_target base stem ply delta k pos]))"

text \<open>
  \<^verbatim>\<open>
  for (ply, delta) in spikes:
      if ply < 1 or ply > len(best): continue
      b = best[ply - 1]
      for k in range(args.back_min, args.back_max + 1): ...
  \<close>
\<close>

fun gen_spikes ::
  "int \<Rightarrow> int \<Rightarrow> string \<Rightarrow> string \<Rightarrow> best_entry list \<Rightarrow> (nat \<times> int) list \<Rightarrow>
   string set \<times> target list \<Rightarrow> string set \<times> target list" where
  "gen_spikes back_min back_max base stem best [] st = st"
| "gen_spikes back_min back_max base stem best ((ply, delta) # spikes) st =
     (if ply < 1 \<or> ply > length best then gen_spikes back_min back_max base stem best spikes st
      else gen_spikes back_min back_max base stem best spikes
             (gen_backs base stem ply delta (be_pos_after (best ! (ply - 1)))
                [back_min .. back_max] st))"

text \<open>
  The outer loop over the logs; of each log the loop needs its base name, the stem of
  the name, \<^verbatim>\<open>best\<close> and the spikes kept after the top-K cut. \<^verbatim>\<open>uniq_positions\<close> and
  \<^verbatim>\<open>targets\<close> start empty and live across all logs of the batch.
\<close>

record log_data =
  ld_base :: string
  ld_stem :: string
  ld_best :: "best_entry list"
  ld_spikes :: "(nat \<times> int) list"

fun gen_logs ::
  "int \<Rightarrow> int \<Rightarrow> log_data list \<Rightarrow> string set \<times> target list \<Rightarrow> string set \<times> target list" where
  "gen_logs back_min back_max [] st = st"
| "gen_logs back_min back_max (l # ls) st =
     gen_logs back_min back_max ls
       (gen_spikes back_min back_max (ld_base l) (ld_stem l) (ld_best l) (ld_spikes l) st)"

definition make_targets :: "int \<Rightarrow> int \<Rightarrow> log_data list \<Rightarrow> target list" where
  "make_targets back_min back_max logs = snd (gen_logs back_min back_max logs ({}, []))"

text \<open>
  \<^verbatim>\<open>expand_targets_back.main\<close>: every input target, every \<open>k\<close>, one output target.
  \<^verbatim>\<open>
  for t in base:
      pos = t.get('pre_position') or t.get('pos_after')
      for k in range(args.min, args.max + 1):
          out.append({'tag': f"{t['tag']}_back{k}", 'pre_position': chop_moves(pos, k),
                      'origin': t['tag'], 'back_plies': k})
  \<close>
  \<^verbatim>\<open>chop_moves(None, k)\<close> returns \<^verbatim>\<open>None\<close> at its first test.
\<close>

record in_target =
  in_tag :: string
  in_pre_position :: "string option"
  in_pos_after :: "string option"

record back_target =
  bt_tag :: string
  bt_pre_position :: "string option"
  bt_origin :: string
  bt_back_plies :: int

definition in_pos :: "in_target \<Rightarrow> string option" where
  "in_pos t =
     (case in_pre_position t of
        Some p \<Rightarrow> if p \<noteq> [] then Some p else in_pos_after t
      | None \<Rightarrow> in_pos_after t)"

definition expand_back :: "in_target list \<Rightarrow> int \<Rightarrow> int \<Rightarrow> back_target list" where
  "expand_back base back_min back_max =
     concat (map (\<lambda>t.
       map (\<lambda>k. \<lparr>bt_tag = in_tag t @ ''_back'' @ str_int k,
                 bt_pre_position = map_option (\<lambda>p. chop_moves_back p k) (in_pos t),
                 bt_origin = in_tag t, bt_back_plies = k\<rparr>)
           [back_min .. back_max]) base)"

text \<open>
  The specification's view of a batch: every candidate a (spike, rewind depth) pair
  produces, in processing order, and of these the first with each position.
\<close>

definition backs_candidates ::
  "string \<Rightarrow> string \<Rightarrow> nat \<Rightarrow> int \<Rightarrow> string option \<Rightarrow> int list \<Rightarrow> target list" where
  "backs_candidates base stem ply delta pos_after ks =
     concat (map (\<lambda>k.
       case chop_moves_logs pos_after k of
         None \<Rightarrow> []
       | Some pos \<Rightarrow> if pos = [] then [] else [new_target base stem ply delta k pos]) ks)"

definition spikes_candidates ::
  "int \<Rightarrow> int \<Rightarrow> string \<Rightarrow> string \<Rightarrow> best_entry list \<Rightarrow> (nat \<times> int) list \<Rightarrow> target list" where
  "spikes_candidates back_min back_max base stem best spikes =
     concat (map (\<lambda>(ply, delta).
       if ply < 1 \<or> ply > length best then []
       else backs_candidates base stem ply delta (be_pos_after (best ! (ply - 1)))
              [back_min .. back_max]) spikes)"

definition candidates :: "int \<Rightarrow> int \<Rightarrow> log_data list \<Rightarrow> target list" where
  "candidates back_min back_max logs =
     concat (map (\<lambda>l.
       spikes_candidates back_min back_max (ld_base l) (ld_stem l) (ld_best l) (ld_spikes l)) logs)"

definition first_occurrences :: "('a \<Rightarrow> 'b) \<Rightarrow> 'a list \<Rightarrow> 'a list" where
  "first_occurrences f cs =
     map (\<lambda>i. cs ! i) (filter (\<lambda>i. f (cs ! i) \<notin> set (map f (take i cs))) [0 ..< length cs])"

text \<open>The deduplication alone, over a flat list of candidates.\<close>

fun dedup_loop :: "string set \<times> target list \<Rightarrow> target list \<Rightarrow> string set \<times> target list" where
  "dedup_loop st [] = st"
| "dedup_loop (uniq_positions, targets) (c # cs) =
     (if tg_pre_position c \<in> uniq_positions then dedup_loop (uniq_positions, targets) cs
      else dedup_loop (insert (tg_pre_position c) uniq_positions, targets @ [c]) cs)"

fun firsts :: "string set \<Rightarrow> target list \<Rightarrow> target list" where
  "firsts seen [] = []"
| "firsts seen (c # cs) =
     (if tg_pre_position c \<in> seen then firsts seen cs
      else c # firsts (insert (tg_pre_position c) seen) cs)"

text \<open>Example inputs.\<close>

definition log_1 :: log_data where
  "log_1 = \<lparr>ld_base = ''g1.md'', ld_stem = ''g1'',
            ld_best = [\<lparr>be_idx = 1, be_bestmove = ''7g7f'', be_pos_after = Some ''startpos moves 7g7f 3c3d''\<rparr>,
                       \<lparr>be_idx = 2, be_bestmove = ''2g2f'', be_pos_after = Some ''startpos moves 7g7f 3c3d 2g2f 8c8d''\<rparr>],
            ld_spikes = [(1, - 400), (2, 350)]\<rparr>"

definition base_2 :: "in_target list" where
  "base_2 =
     [\<lparr>in_tag = ''s1'', in_pre_position = Some ''startpos moves 7g7f 3c3d 2g2f'', in_pos_after = None\<rparr>,
      \<lparr>in_tag = ''s2'', in_pre_position = Some ''startpos moves 7g7f 3c3d 2g2f 8c8d'', in_pos_after = None\<rparr>]"

text \<open>
  Well-formed parts: the head is not empty and does not itself contain \<^verbatim>\<open> moves\<close>; a move
  token is not empty and has no whitespace in it.
\<close>

definition wf_head :: "string \<Rightarrow> bool" where
  "wf_head h \<longleftrightarrow> h \<noteq> [] \<and> \<not> has_sub '' moves'' h"

definition wf_token :: "string \<Rightarrow> bool" where
  "wf_token t \<longleftrightarrow> t \<noteq> [] \<and> (\<forall>c \<in> set t. \<not> is_space c)"

chapter \<open>Properties\<close>

section \<open>Spike detection: proofs\<close>

lemma spikes_loop_Some:
  "spikes_loop T (Some p) acc (zip [k ..< k + length xs] xs) = acc @ deltas_from T p k xs"
proof (induction xs arbitrary: p k acc)
  case Nil
  then show ?case by simp
next
  case (Cons x xs)
  have "[k ..< k + length (x # xs)] = k # [Suc k ..< Suc k + length xs]"
    by (simp add: upt_conv_Cons del: upt_Suc)
  then show ?case using Cons.IH [where p = x and k = "Suc k"] by (simp add: Let_def)
qed

lemma deltas_from_index:
  "deltas_from T p k xs =
     map (\<lambda>j. (k + j, (p # xs) ! Suc j - (p # xs) ! j))
       (filter (\<lambda>j. T \<le> \<bar>(p # xs) ! Suc j - (p # xs) ! j\<bar>) [0 ..< length xs])"
proof (induction xs arbitrary: p k)
  case Nil
  then show ?case by simp
next
  case (Cons x xs)
  have u: "[0 ..< length (x # xs)] = 0 # map Suc [0 ..< length xs]"
    by (simp add: upt_conv_Cons map_Suc_upt del: upt_Suc)
  show ?case
    unfolding u using Cons.IH [where p = x and k = "Suc k"]
    by (simp add: filter_map comp_def)
qed

lemma compute_spikes_spec: "compute_spikes E T = spikes_spec E T"
proof (cases E)
  case Nil
  then show ?thesis by (simp add: compute_spikes_def spikes_spec_def enumerate_from_def)
next
  case (Cons p xs)
  have u: "[1 ..< 1 + length (p # xs)] = 1 # [2 ..< 2 + length xs]"
    by (simp add: upt_conv_Cons numeral_2_eq_2 del: upt_Suc)
  have v: "[1 ..< length (p # xs)] = map Suc [0 ..< length xs]"
    by (simp add: map_Suc_upt del: upt_Suc)
  have "compute_spikes E T = spikes_loop T (Some p) [] (zip [2 ..< 2 + length xs] xs)"
    unfolding compute_spikes_def enumerate_from_def Cons u by simp
  also have "\<dots> = deltas_from T p 2 xs"
    using spikes_loop_Some [of T p "[]" 2 xs] by simp
  also have "\<dots> = spikes_spec E T"
    unfolding deltas_from_index spikes_spec_def Cons v
    by (simp add: filter_map comp_def)
  finally show ?thesis .
qed

lemma spikes_spec_member_Suc:
  "(Suc j, d) \<in> set (spikes_spec E T) \<longleftrightarrow>
     1 \<le> j \<and> j < length E \<and> d = E ! j - E ! (j - 1) \<and> T \<le> \<bar>d\<bar>"
  by (auto simp: spikes_spec_def)

lemma spikes_spec_member_0: "(0, d) \<notin> set (spikes_spec E T)"
  by (auto simp: spikes_spec_def)

lemma spikes_spec_member:
  "(i, d) \<in> set (spikes_spec E T) \<longleftrightarrow>
     2 \<le> i \<and> i \<le> length E \<and> d = E ! (i - 1) - E ! (i - 2) \<and> T \<le> \<bar>d\<bar>"
proof (cases i)
  case 0
  then show ?thesis using spikes_spec_member_0 [of d E T] by simp
next
  case (Suc j)
  have e: "i - 1 = j" "i - 2 = j - 1" "2 \<le> i \<longleftrightarrow> 1 \<le> j" "i \<le> length E \<longleftrightarrow> j < length E"
    using Suc by auto
  show ?thesis
    unfolding e using spikes_spec_member_Suc [of j d E T] Suc by blast
qed

text \<open>
  Claim C3. For every evaluation series \<open>E\<close> of length \<open>L\<close> and every threshold \<open>T\<close>,
  \<open>compute_spikes\<close> returns, in increasing order, exactly the 1-based indices \<open>i\<close> in
  \<open>[2, L]\<close> with \<open>|E[i] - E[i-1]| \<ge> T\<close>, each paired with the signed delta
  \<open>E[i] - E[i-1]\<close>; index 1 is never flagged. (\<open>E ! (i - 1)\<close> is the 1-based \<open>E[i]\<close>.)
\<close>

theorem compute_spikes_flags:
  "compute_spikes E T = spikes_spec E T \<and>
   ((i, d) \<in> set (compute_spikes E T) \<longleftrightarrow>
      2 \<le> i \<and> i \<le> length E \<and> d = E ! (i - 1) - E ! (i - 2) \<and> T \<le> \<bar>d\<bar>) \<and>
   (1, d) \<notin> set (compute_spikes E T)"
  using spikes_spec_member [of i d E T] spikes_spec_member [of 1 d E T]
  by (simp add: compute_spikes_spec)

section \<open>Target runner: proofs\<close>







section \<open>Transcript parsing: proofs\<close>

lemma parse_loop_append:
  "parse_loop inc exc (xs @ ys) st = parse_loop inc exc ys (parse_loop inc exc xs st)"
proof (induction xs arbitrary: st)
  case Nil
  then show ?case by simp
next
  case (Cons x xs)
  obtain e m c where st: "st = (e, m, c)" by (cases st)
  show ?case unfolding st using Cons.IH
    by (simp split: option.split prod.split)
qed

lemma parse_loop_single:
  "parse_loop inc exc [l] (e, m, c) =
     (case classify inc exc l of
        Reading k v \<Rightarrow> (e, m, Some (normalize (k, v)))
      | Decision mv \<Rightarrow>
          (e @ [case c of None \<Rightarrow> if e \<noteq> [] then last e else 0 | Some v \<Rightarrow> v], m @ [mv], None)
      | Ignored \<Rightarrow> (e, m, c))"
  by (auto simp: classify_def normalize_def split: option.split score_kind.split)

lemma pending_reading_snoc:
  "pending_reading (evs @ [ev]) =
     (case ev of Reading k v \<Rightarrow> Some (k, v) | Decision mv \<Rightarrow> None | Ignored \<Rightarrow> pending_reading evs)"
  by (cases ev) (simp_all add: pending_reading_def)

lemma parse_loop_cur_eval:
  "snd (snd (parse_loop inc exc pre ([], [], None))) =
     map_option normalize (pending_reading (map (classify inc exc) pre))"
proof (induction pre rule: rev_induct)
  case Nil
  then show ?case by (simp add: pending_reading_def)
next
  case (snoc l pre)
  obtain e m c where st: "parse_loop inc exc pre ([], [], None) = (e, m, c)"
    by (cases "parse_loop inc exc pre ([], [], None)")
  have c: "c = map_option normalize (pending_reading (map (classify inc exc) pre))"
    using snoc.IH st by simp
  show ?case
    unfolding parse_loop_append st parse_loop_single map_append list.map pending_reading_snoc
    by (cases "classify inc exc l") (simp_all add: c)
qed

lemma parse_log_decision:
  assumes "classify inc exc b = Decision mv"
  shows "parse_log inc exc (pre @ [b]) =
     (fst (parse_log inc exc pre) @
        [case pending_reading (map (classify inc exc) pre) of
           Some (Cp, v) \<Rightarrow> v
         | Some (Mate, n) \<Rightarrow> if n > 0 then 100000 else - 100000
         | None \<Rightarrow> if fst (parse_log inc exc pre) = [] then 0 else last (fst (parse_log inc exc pre))],
      snd (parse_log inc exc pre) @ [mv])"
proof -
  obtain e m c where st: "parse_loop inc exc pre ([], [], None) = (e, m, c)"
    by (cases "parse_loop inc exc pre ([], [], None)")
  have c: "c = map_option normalize (pending_reading (map (classify inc exc) pre))"
    using parse_loop_cur_eval [of inc exc pre] st by simp
  show ?thesis
    unfolding parse_log_def parse_loop_append st parse_loop_single assms
    by (simp add: c normalize_def split: option.split score_kind.split)
qed

lemma evals_loop_append:
  "evals_loop (xs @ ys) st = evals_loop ys (evals_loop xs st)"
proof (induction xs arbitrary: st)
  case Nil
  then show ?case by simp
next
  case (Cons x xs)
  obtain e c where st: "st = (e, c)" by (cases st)
  show ?case unfolding st using Cons.IH by (simp add: Let_def)
qed

lemma evals_loop_cur:
  "recs \<noteq> [] \<Longrightarrow> evals_loop recs ([], None) = (e, c) \<Longrightarrow> e \<noteq> [] \<and> c = Some (last e)"
proof (induction recs arbitrary: e c rule: rev_induct)
  case Nil
  then show ?case by simp
next
  case (snoc r recs)
  obtain e0 c0 where st: "evals_loop recs ([], None) = (e0, c0)"
    by (cases "evals_loop recs ([], None)")
  show ?case
    using snoc.prems(2) unfolding evals_loop_append st
    by (auto simp: Let_def)
qed

lemma moves_evals_snoc:
  "moves_evals (rs @ [r]) =
     moves_evals rs @
       [case (mv_eval_cp r, mv_eval_mate r) of
          (Some cp, m) \<Rightarrow> cp
        | (None, Some n) \<Rightarrow> if n > 0 then 100000 else - 100000
        | (None, None) \<Rightarrow> if moves_evals rs = [] then 0 else last (moves_evals rs)]"
proof -
  obtain e c where st: "evals_loop rs ([], None) = (e, c)"
    by (cases "evals_loop rs ([], None)")
  have k: "c = None \<longrightarrow> e = []" "c \<noteq> None \<longrightarrow> e \<noteq> [] \<and> c = Some (last e)"
    using evals_loop_cur [OF _ st] st by (cases rs; auto)+
  show ?thesis
    unfolding moves_evals_def evals_loop_append st
    using k by (auto simp: Let_def split: option.split)
qed


text \<open>
  Claim C8. In \<^verbatim>\<open>parse_log\<close>, the sample recorded at a decision line is the value of the
  most recent evaluation reading since the previous decision: the centipawn value itself,
  or for a mate reading \<open>+100000\<close> if the mate count is positive and \<open>-100000\<close> otherwise;
  a decision line with no reading since the previous decision records the previous
  sample's evaluation, or \<open>0\<close> if no previous sample exists. The record loop of
  \<^verbatim>\<open>make_targets_from_moves.py\<close> records, per move, the centipawn value, else the mate
  reading normalised the same way, else the previous sample or \<open>0\<close>.
\<close>

theorem parse_records_mate_and_carry_forward:
  "(classify include_re exclude_re b = Decision mv \<longrightarrow>
      parse_log include_re exclude_re (pre @ [b]) =
        (fst (parse_log include_re exclude_re pre) @
           [case pending_reading (map (classify include_re exclude_re) pre) of
              Some (Cp, v) \<Rightarrow> v
            | Some (Mate, n) \<Rightarrow> if n > 0 then 100000 else - 100000
            | None \<Rightarrow>
                if fst (parse_log include_re exclude_re pre) = [] then 0
                else last (fst (parse_log include_re exclude_re pre))],
         snd (parse_log include_re exclude_re pre) @ [mv])) \<and>
   moves_evals (rs @ [r]) =
     moves_evals rs @
       [case (mv_eval_cp r, mv_eval_mate r) of
          (Some cp, m) \<Rightarrow> cp
        | (None, Some n) \<Rightarrow> if n > 0 then 100000 else - 100000
        | (None, None) \<Rightarrow> if moves_evals rs = [] then 0 else last (moves_evals rs)]"
  using parse_log_decision [of include_re exclude_re b mv pre] moves_evals_snoc [of rs r]
  by blast

theorem parse_records_mate_and_carry_forward_witness:
  "classify None None ''bestmove 2g2f'' = Decision ''2g2f'' \<and>
   pending_reading (map (classify None None) (take 4 example_log)) = Some (Mate, - 7) \<and>
   parse_log None None (take 4 example_log @ [''bestmove 2g2f'']) =
     ([0, - 100000], [''3c3d'', ''2g2f'']) \<and>
   classify None None ''bestmove 8c8d'' = Decision ''8c8d'' \<and>
   pending_reading (map (classify None None) (take 6 example_log)) = None \<and>
   parse_log None None (take 6 example_log @ [''bestmove 8c8d'']) =
     ([0, - 100000, - 100000], [''3c3d'', ''2g2f'', ''8c8d'']) \<and>
   moves_evals [\<lparr>mv_eval_cp = None, mv_eval_mate = None\<rparr>,
                \<lparr>mv_eval_cp = None, mv_eval_mate = Some 3\<rparr>,
                \<lparr>mv_eval_cp = None, mv_eval_mate = None\<rparr>] = [0, 100000, 100000]"
proof -
  have d1: "classify None None ''bestmove 2g2f'' = Decision ''2g2f''" by code_simp
  have p1: "pending_reading (map (classify None None) (take 4 example_log)) = Some (Mate, - 7)"
    by code_simp
  have l1: "parse_log None None (take 4 example_log) = ([0], [''3c3d''])" by code_simp
  have d2: "classify None None ''bestmove 8c8d'' = Decision ''8c8d''" by code_simp
  have p2: "pending_reading (map (classify None None) (take 6 example_log)) = None"
    by code_simp
  have l2: "parse_log None None (take 6 example_log) = ([0, - 100000], [''3c3d'', ''2g2f''])"
    by code_simp
  have m0: "moves_evals [\<lparr>mv_eval_cp = None, mv_eval_mate = None\<rparr>,
                \<lparr>mv_eval_cp = None, mv_eval_mate = Some 3\<rparr>] = [0, 100000]"
    by code_simp
  have r1: "parse_log None None (take 4 example_log @ [''bestmove 2g2f'']) =
     ([0, - 100000], [''3c3d'', ''2g2f''])"
    using parse_records_mate_and_carry_forward
      [of None None "''bestmove 2g2f''" "''2g2f''" "take 4 example_log"] d1
    unfolding p1 l1 by simp
  have r2: "parse_log None None (take 6 example_log @ [''bestmove 8c8d'']) =
     ([0, - 100000, - 100000], [''3c3d'', ''2g2f'', ''8c8d''])"
    using parse_records_mate_and_carry_forward
      [of None None "''bestmove 8c8d''" "''8c8d''" "take 6 example_log"] d2
    unfolding p2 l2 by simp
  have r3: "moves_evals ([\<lparr>mv_eval_cp = None, mv_eval_mate = None\<rparr>,
                \<lparr>mv_eval_cp = None, mv_eval_mate = Some 3\<rparr>] @
                [\<lparr>mv_eval_cp = None, mv_eval_mate = None\<rparr>]) = [0, 100000, 100000]"
    using parse_records_mate_and_carry_forward
      [where rs = "[\<lparr>mv_eval_cp = None, mv_eval_mate = None\<rparr>,
                \<lparr>mv_eval_cp = None, mv_eval_mate = Some 3\<rparr>]"
         and r = "\<lparr>mv_eval_cp = None, mv_eval_mate = None\<rparr>"]
    unfolding m0 by simp
  show ?thesis using d1 p1 r1 d2 p2 r2 r3 by simp
qed

section \<open>Metrics aggregation: proofs\<close>







section \<open>SPSA optimizer: proofs\<close>

lemma clamp_step_range:
  "mn \<le> mx \<Longrightarrow> mn \<le> clamp_step x mn mx step \<and> clamp_step x mn mx step \<le> mx"
  by (simp add: clamp_step_def Let_def)

lemma clamp_step_grid_or_max:
  assumes "mn \<le> mx" "1 \<le> step"
  shows "step dvd (clamp_step x mn mx step - mn) \<or> clamp_step x mn mx step = mx"
proof (cases "step = 1")
  case True
  then show ?thesis by simp
next
  case False
  then have s: "step \<noteq> 0 \<and> step > 1" using assms by simp
  define k where "k = py_round (of_int (max mn (min mx x) - mn) / of_int step)"
  have e: "clamp_step x mn mx step = max mn (min mx (k * step + mn))"
    using s by (simp add: clamp_step_def Let_def k_def)
  show ?thesis
    unfolding e using assms(1) by (auto simp: max_def min_def)
qed

lemma clamp_step_stored:
  assumes "p_min pc \<le> p_max pc" "1 \<le> p_step pc"
  shows "in_domain pc (clamp_step x (p_min pc) (p_max pc) (p_step pc)) \<and>
         (on_grid pc (clamp_step x (p_min pc) (p_max pc) (p_step pc)) \<or>
          clamp_step x (p_min pc) (p_max pc) (p_step pc) = p_max pc) \<and>
         (p_step pc dvd (p_max pc - p_min pc) \<longrightarrow>
          on_grid pc (clamp_step x (p_min pc) (p_max pc) (p_step pc)))"
  using clamp_step_range [OF assms(1), of x "p_step pc"]
        clamp_step_grid_or_max [OF assms, of x]
  unfolding in_domain_def on_grid_def by auto

lemma spsa_iteration_Some:
  assumes "params_cfg k = Some pc" "theta k = Some t"
  shows "\<exists>x. spsa_iteration params_cfg ak ck delta_sign J theta k =
           Some (clamp_step x (p_min pc) (p_max pc) (p_step pc))"
proof -
  have p: "theta_plus params_cfg theta delta_sign ck k =
      Some (clamp_step (t + delta_sign k * perturb_d ck (p_step pc)) (p_min pc) (p_max pc) (p_step pc))"
    using assms by (simp add: theta_plus_def)
  have m: "theta_minus params_cfg theta delta_sign ck k =
      Some (clamp_step (t - delta_sign k * perturb_d ck (p_step pc)) (p_min pc) (p_max pc) (p_step pc))"
    using assms by (simp add: theta_minus_def)
  show ?thesis
    unfolding spsa_iteration_def spsa_update_def Let_def p m assms
    by (simp del: ex_simps) (rule exI, rule refl)
qed

text \<open>
  Claim C5, as amended. For a tunable declared with \<open>min \<le> max\<close> and \<open>step \<ge> 1\<close>, the
  component stored by each perturbation (\<open>theta+\<close>, \<open>theta-\<close>) and by the update step
  lies within \<open>[min, max]\<close>, and is either \<open>min\<close> plus an integer multiple of \<open>step\<close> or
  \<open>max\<close> itself; it is \<open>min\<close> plus an integer multiple of \<open>step\<close> whenever \<open>step\<close>
  divides \<open>max - min\<close>.
\<close>

theorem spsa_stored_components:
  assumes "params_cfg k = Some pc" and "theta k = Some t"
    and "p_min pc \<le> p_max pc" and "1 \<le> p_step pc"
  shows "\<exists>vp vm vn.
           theta_plus params_cfg theta delta_sign ck k = Some vp \<and>
           theta_minus params_cfg theta delta_sign ck k = Some vm \<and>
           spsa_iteration params_cfg ak ck delta_sign J theta k = Some vn \<and>
           (\<forall>v \<in> {vp, vm, vn}.
              in_domain pc v \<and> (on_grid pc v \<or> v = p_max pc) \<and>
              (p_step pc dvd (p_max pc - p_min pc) \<longrightarrow> on_grid pc v))"
proof -
  obtain x where x: "spsa_iteration params_cfg ak ck delta_sign J theta k =
      Some (clamp_step x (p_min pc) (p_max pc) (p_step pc))"
    using spsa_iteration_Some [where params_cfg = params_cfg and theta = theta and k = k
        and pc = pc and t = t] assms(1,2) by blast
  have p: "theta_plus params_cfg theta delta_sign ck k =
      Some (clamp_step (t + delta_sign k * perturb_d ck (p_step pc)) (p_min pc) (p_max pc) (p_step pc))"
    using assms(1,2) by (simp add: theta_plus_def)
  have m: "theta_minus params_cfg theta delta_sign ck k =
      Some (clamp_step (t - delta_sign k * perturb_d ck (p_step pc)) (p_min pc) (p_max pc) (p_step pc))"
    using assms(1,2) by (simp add: theta_minus_def)
  show ?thesis
    unfolding p m x
    using clamp_step_stored [OF assms(3,4)] by simp
qed

theorem spsa_stored_components_witness:
  "example_cfg ''LMR_K_x100'' = Some example_pc \<and> example_theta ''LMR_K_x100'' = Some 160 \<and>
   p_min example_pc \<le> p_max example_pc \<and> 1 \<le> p_step example_pc \<and>
   p_step example_pc dvd (p_max example_pc - p_min example_pc) \<and>
   (\<exists>vp vm vn.
      theta_plus example_cfg example_theta (\<lambda>k. 1) 1 ''LMR_K_x100'' = Some vp \<and>
      theta_minus example_cfg example_theta (\<lambda>k. 1) 1 ''LMR_K_x100'' = Some vm \<and>
      spsa_iteration example_cfg (1 / 2) 1 (\<lambda>k. 1) (\<lambda>th. None) example_theta ''LMR_K_x100'' = Some vn \<and>
      in_domain example_pc vp \<and> on_grid example_pc vp \<and>
      in_domain example_pc vm \<and> on_grid example_pc vm \<and>
      in_domain example_pc vn \<and> on_grid example_pc vn)"
proof -
  have h1: "example_cfg ''LMR_K_x100'' = Some example_pc" by (simp add: example_cfg_def)
  have h2: "example_theta ''LMR_K_x100'' = Some 160" by (simp add: example_theta_def)
  have h3: "p_min example_pc \<le> p_max example_pc" by (simp add: example_pc_def)
  have h4: "1 \<le> p_step example_pc" by (simp add: example_pc_def)
  have h5: "p_step example_pc dvd (p_max example_pc - p_min example_pc)"
    by (simp add: example_pc_def)
  show ?thesis
    using spsa_stored_components [where params_cfg = example_cfg and theta = example_theta
        and k = "''LMR_K_x100''" and pc = example_pc and t = 160 and delta_sign = "\<lambda>k. 1"
        and ck = 1 and ak = "1 / 2" and J = "\<lambda>th. None"] h1 h2 h3 h4 h5
    by auto
qed

text \<open>
  The claim as stated fails where \<open>step\<close> does not divide \<open>max - min\<close>: with the domain
  \<open>{min: 100, max: 206, step: 10}\<close>, \<open>theta = 196\<close>, sign \<open>+1\<close> and \<open>c_k = 1\<close> the perturbation
  proposes \<open>206\<close>, which snaps to \<open>210\<close> and is clamped back to \<open>206 = 100 + 10.6 * 10\<close>.
\<close>

theorem spsa_stored_off_grid:
  "theta_plus [''P'' \<mapsto> ragged_pc] [''P'' \<mapsto> 196] (\<lambda>k. 1) 1 ''P'' = Some 206 \<and>
   \<not> on_grid ragged_pc 206 \<and>
   (\<nexists>n. (206::int) = p_min ragged_pc + n * p_step ragged_pc)"
proof -
  have d: "perturb_d 1 10 = 10" by (simp add: perturb_d_def py_round_def)
  have c: "clamp_step 206 100 206 10 = 206" unfolding clamp_step_def py_round_def by code_simp
  have g: "\<not> (10::int) dvd 106" by simp
  have "\<And>n::int. 206 \<noteq> 100 + n * 10" using g by presburger
  then show ?thesis
    using d c g by (simp add: theta_plus_def ragged_pc_def on_grid_def)
qed

text \<open>
  Claim C6, as amended. Under the domain \<open>{min: 100, max: 200, step: 10}\<close> a proposed
  component value of \<open>215\<close> is first clamped to \<open>200\<close>, which is on the step grid: the
  stored value is \<open>200\<close>.
\<close>

theorem clamp_step_215: "clamp_step 215 100 200 10 = 200"
  by (simp add: clamp_step_def py_round_def)

theorem clamp_step_215_not_210: "clamp_step 215 100 200 10 \<noteq> 210"
  by (simp add: clamp_step_def py_round_def)

section \<open>Regression suite: proofs\<close>

lemma check_prefixes_first:
  "check_prefixes scn results ps =
     (case concat (map (prefix_violations scn results) ps) of [] \<Rightarrow> None | f # fs \<Rightarrow> Some f)"
proof (induction ps)
  case Nil
  then show ?case by simp
next
  case (Cons p ps)
  show ?case
    using Cons.IH
    by (auto simp: prefix_violations_def split: option.split list.split)
qed

lemma check_guards_first:
  "check_guards results gs =
     (case concat (map (guard_violations results) gs) of [] \<Rightarrow> None | f # fs \<Rightarrow> Some f)"
proof (induction gs)
  case Nil
  then show ?case by simp
next
  case (Cons g gs)
  obtain number guard where g: "g = (number, guard)" by (cases g)
  show ?case
    unfolding g using Cons.IH
    by (auto simp: guard_violations_def split: option.split list.split)
qed

lemma first_of_append:
  "(case (case xs of [] \<Rightarrow> None | f # fs \<Rightarrow> Some f) of
      Some f \<Rightarrow> Inl f
    | None \<Rightarrow> (case (case ys of [] \<Rightarrow> None | f # fs \<Rightarrow> Some f) of Some f \<Rightarrow> Inl f | None \<Rightarrow> Inr ())) =
   (case xs @ ys of [] \<Rightarrow> Inr () | f # fs \<Rightarrow> Inl f)"
  by (cases xs; cases ys) simp_all

lemma check_bounds_first:
  "check_bounds scn results =
     (case violations scn results of [] \<Rightarrow> Inr () | f # fs \<Rightarrow> Inl f)"
  unfolding check_bounds_def violations_def check_prefixes_first check_guards_first
  by (rule first_of_append)

lemma check_prefixes_missing:
  "p \<in> set ps \<Longrightarrow> dict_get results p = None \<Longrightarrow> check_prefixes scn results ps \<noteq> None"
  by (induction ps) (auto split: option.split)

lemma check_prefixes_names_missing:
  assumes "\<forall>q \<in> set before. prefix_violations scn results q = []"
    and "dict_get results p = None"
  shows "check_prefixes scn results (before @ p # after) = Some (PrefixMissing p)"
proof -
  have c: "concat (map (prefix_violations scn results) before) = []"
    using assms(1) by simp
  have m: "prefix_violations scn results p = [PrefixMissing p]"
    using assms(2) by (simp add: prefix_violations_def)
  show ?thesis
    unfolding check_prefixes_first map_append concat_append list.map concat.simps c m
    by simp
qed

lemma dict_get_dict_set: "dict_get (dict_set k v kvs) k' = (if k' = k then Some v else dict_get kvs k')"
  by (induction kvs) auto

lemma summary_step_keys:
  "dict_get (summary_step results l) p = None \<longleftrightarrow>
     dict_get results p = None \<and> line_number l \<noteq> Some p"
  by (cases l) (auto simp: dict_get_dict_set Let_def split: option.split)

lemma foldl_summary_step_keys:
  "dict_get (foldl summary_step results summary) p = None \<longleftrightarrow>
     dict_get results p = None \<and> p \<notin> set (summary_numbers summary)"
proof (induction summary arbitrary: results)
  case Nil
  then show ?case by (simp add: summary_numbers_def map_filter_simps)
next
  case (Cons l ls)
  show ?case
    using Cons.IH [of "summary_step results l"] summary_step_keys [of results l p]
    by (cases "line_number l") (auto simp: summary_numbers_def map_filter_simps)
qed

lemma parse_summary_keys:
  "parse_summary summary = Inr results \<Longrightarrow>
   dict_get results p = None \<longleftrightarrow> p \<notin> set (summary_numbers summary)"
  using foldl_summary_step_keys [of "[]" summary p]
  by (auto simp: parse_summary_def Let_def split: if_splits)

lemma run_scenario_omitted_fails:
  assumes "replay scn = Inr summary" and "p \<in> set (scn_prefixes scn)"
    and "p \<notin> set (summary_numbers summary)"
  shows "\<exists>f. run_scenario replay scn = Inl f"
proof (cases "parse_summary summary")
  case (Inl e)
  then show ?thesis using assms(1) by (simp add: run_scenario_def)
next
  case (Inr results)
  have "dict_get results p = None" using parse_summary_keys [OF Inr] assms(3) by simp
  then have "check_prefixes scn results (scn_prefixes scn) \<noteq> None"
    using check_prefixes_missing assms(2) by blast
  then obtain f where "check_bounds scn results = Inl f"
    by (auto simp: check_bounds_def)
  then show ?thesis using assms(1) Inr by (simp add: run_scenario_def)
qed

lemma run_scenario_names_missing:
  assumes "replay scn = Inr summary" and "parse_summary summary = Inr results"
    and "scn_prefixes scn = before @ p # after"
    and "\<forall>q \<in> set before. prefix_violations scn results q = []"
    and "p \<notin> set (summary_numbers summary)"
  shows "run_scenario replay scn = Inl (PrefixMissing p)"
proof -
  have "dict_get results p = None" using parse_summary_keys [OF assms(2)] assms(5) by simp
  then have "check_prefixes scn results (scn_prefixes scn) = Some (PrefixMissing p)"
    unfolding assms(3) using check_prefixes_names_missing [OF assms(4)] by blast
  then show ?thesis
    using assms(1,2) by (simp add: run_scenario_def check_bounds_def)
qed

lemma run_loop_all:
  "run_loop replay scns (failures, printed) =
     (failures @ List.map_filter (failure_of replay) scns,
      printed @ concat (map (verdict replay) scns))"
proof (induction scns arbitrary: failures printed)
  case Nil
  then show ?case by (simp add: map_filter_simps)
next
  case (Cons scn scns)
  show ?case
    by (cases "run_scenario replay scn")
      (simp_all add: Cons.IH map_filter_simps failure_of_def verdict_def)
qed

lemma map_filter_failure_of_empty:
  "List.map_filter (failure_of replay) scns = [] \<longleftrightarrow>
     (\<forall>scn \<in> set scns. \<exists>n. run_scenario replay scn = Inr n)"
proof (induction scns)
  case Nil
  then show ?case by (simp add: map_filter_simps)
next
  case (Cons scn scns)
  show ?case
    using Cons.IH
    by (cases "run_scenario replay scn") (auto simp: map_filter_simps failure_of_def)
qed

lemma suite_run_report:
  "suite_run replay scns =
     (if List.map_filter (failure_of replay) scns \<noteq> [] then
        (1, concat (map (verdict replay) scns) @ [FailuresHeader] @
            map (\<lambda>(name, msg). FailureEntry name msg) (List.map_filter (failure_of replay) scns))
      else (0, concat (map (verdict replay) scns)))"
  by (simp add: suite_run_def run_loop_all)


text \<open>
  Claim C9, as amended. A regression scenario whose replay summary omits a declared prefix
  fails; the reason names that prefix when the summary parses and no declared prefix
  listed before it is missing or breaks a global bound. \<^verbatim>\<open>_check_bounds\<close> fails with the
  first violation in checking order (the declared prefixes against the global bounds,
  then the guards) and passes when there is none. The suite runs every scenario, printing
  one verdict for each, reports all failures together at the end, and \<^verbatim>\<open>run\<close> returns a
  non-zero exit code if and only if at least one scenario failed.
\<close>

theorem regression_suite_first_violation:
  assumes "replay scn = Inr summary" and "p \<in> set (scn_prefixes scn)"
    and "p \<notin> set (summary_numbers summary)"
  shows "(\<exists>f. run_scenario replay scn = Inl f) \<and>
         (\<forall>results before after.
            parse_summary summary = Inr results \<longrightarrow>
            scn_prefixes scn = before @ p # after \<longrightarrow>
            (\<forall>q \<in> set before. prefix_violations scn results q = []) \<longrightarrow>
            run_scenario replay scn = Inl (PrefixMissing p)) \<and>
         check_bounds scn' results' =
           (case violations scn' results' of [] \<Rightarrow> Inr () | f # fs \<Rightarrow> Inl f) \<and>
         suite_run replay' scns =
           (if List.map_filter (failure_of replay') scns \<noteq> [] then
              (1, concat (map (verdict replay') scns) @ [FailuresHeader] @
                  map (\<lambda>(name, msg). FailureEntry name msg)
                    (List.map_filter (failure_of replay') scns))
            else (0, concat (map (verdict replay') scns))) \<and>
         (fst (suite_run replay' scns) \<noteq> 0 \<longleftrightarrow>
            (\<exists>s \<in> set scns. \<exists>f. run_scenario replay' s = Inl f))"
proof -
  have a: "\<exists>f. run_scenario replay scn = Inl f"
    using run_scenario_omitted_fails [where replay = replay and scn = scn and summary = summary
        and p = p] assms by blast
  have b: "\<forall>results before after.
            parse_summary summary = Inr results \<longrightarrow>
            scn_prefixes scn = before @ p # after \<longrightarrow>
            (\<forall>q \<in> set before. prefix_violations scn results q = []) \<longrightarrow>
            run_scenario replay scn = Inl (PrefixMissing p)"
    using run_scenario_names_missing [where replay = replay and scn = scn and summary = summary
        and p = p] assms(1,3) by blast
  have e: "fst (suite_run replay' scns) \<noteq> 0 \<longleftrightarrow>
            (\<exists>s \<in> set scns. \<exists>f. run_scenario replay' s = Inl f)"
  proof -
    have "fst (suite_run replay' scns) \<noteq> 0 \<longleftrightarrow> List.map_filter (failure_of replay') scns \<noteq> []"
      by (simp add: suite_run_report)
    also have "\<dots> \<longleftrightarrow> \<not> (\<forall>s \<in> set scns. \<exists>n. run_scenario replay' s = Inr n)"
      by (simp add: map_filter_failure_of_empty)
    also have "\<dots> \<longleftrightarrow> (\<exists>s \<in> set scns. \<exists>f. run_scenario replay' s = Inl f)"
      by (metis sum.exhaust sum.distinct(1))
    finally show ?thesis .
  qed
  show ?thesis
    using a b check_bounds_first [of scn' results'] suite_run_report [of replay' scns] e
    by blast
qed

theorem regression_suite_first_violation_witness:
  "replay_10 scn_b = Inr summary_10 \<and> 20 \<in> set (scn_prefixes scn_b) \<and>
   20 \<notin> set (summary_numbers summary_10) \<and>
   parse_summary summary_10 =
     Inr [(10, \<lparr>pr_bestmove = ''7g7f'', pr_depth = 5, pr_seldepth = 7, pr_score_cp = - 5\<rparr>)] \<and>
   run_scenario replay_10 scn_b = Inl (PrefixMissing 20) \<and>
   suite_run replay_10 [scn_a, scn_c, scn_b] =
     (1, [ScenarioStarted ''a'', ScenarioFail (ScoreBelowMin 10 (- 5) 0),
          ScenarioStarted ''c'', ScenarioPass 1,
          ScenarioStarted ''b'', ScenarioFail (PrefixMissing 20),
          FailuresHeader,
          FailureEntry ''a'' (ScoreBelowMin 10 (- 5) 0),
          FailureEntry ''b'' (PrefixMissing 20)])"
proof -
  have h1: "replay_10 scn_b = Inr summary_10" by (simp add: replay_10_def)
  have h2: "20 \<in> set (scn_prefixes scn_b)" by (simp add: scn_b_def)
  have h3: "20 \<notin> set (summary_numbers summary_10)"
    by (simp add: summary_numbers_def summary_10_def map_filter_simps)
  have ps: "parse_summary summary_10 =
     Inr [(10, \<lparr>pr_bestmove = ''7g7f'', pr_depth = 5, pr_seldepth = 7, pr_score_cp = - 5\<rparr>)]"
    by (simp add: parse_summary_def summary_10_def Let_def)
  have pf: "scn_prefixes scn_b = [10] @ 20 # []" by (simp add: scn_b_def)
  have ok: "\<forall>q \<in> set [10].
      prefix_violations scn_b
        [(10, \<lparr>pr_bestmove = ''7g7f'', pr_depth = 5, pr_seldepth = 7, pr_score_cp = - 5\<rparr>)] q = []"
    by (simp add: prefix_violations_def scn_b_def)
  note t = regression_suite_first_violation [where replay = replay_10 and scn = scn_b
      and summary = summary_10 and p = 20 and scn' = scn_a and results' = "[]"
      and replay' = replay_10 and scns = "[scn_a, scn_c, scn_b]", OF h1 h2 h3]
  have r: "run_scenario replay_10 scn_b = Inl (PrefixMissing 20)"
    using t ps pf ok by blast
  have ra: "run_scenario replay_10 scn_a = Inl (ScoreBelowMin 10 (- 5) 0)"
    by (simp add: run_scenario_def replay_10_def ps check_bounds_def scn_a_def)
  have rc: "run_scenario replay_10 scn_c = Inr 1"
    by (simp add: run_scenario_def replay_10_def ps check_bounds_def scn_c_def guard_map_def)
  have nm: "scn_name scn_a = ''a''" "scn_name scn_b = ''b''" "scn_name scn_c = ''c''"
    by (simp_all add: scn_a_def scn_b_def scn_c_def)
  have mf: "List.map_filter (failure_of replay_10) [scn_a, scn_c, scn_b] =
      [(''a'', ScoreBelowMin 10 (- 5) 0), (''b'', PrefixMissing 20)]"
    by (simp add: map_filter_simps failure_of_def r ra rc nm)
  have vd: "concat (map (verdict replay_10) [scn_a, scn_c, scn_b]) =
      [ScenarioStarted ''a'', ScenarioFail (ScoreBelowMin 10 (- 5) 0),
       ScenarioStarted ''c'', ScenarioPass 1,
       ScenarioStarted ''b'', ScenarioFail (PrefixMissing 20)]"
    by (simp add: verdict_def r ra rc nm)
  have "suite_run replay_10 [scn_a, scn_c, scn_b] =
      (if List.map_filter (failure_of replay_10) [scn_a, scn_c, scn_b] \<noteq> [] then
         (1, concat (map (verdict replay_10) [scn_a, scn_c, scn_b]) @ [FailuresHeader] @
             map (\<lambda>(name, msg). FailureEntry name msg)
               (List.map_filter (failure_of replay_10) [scn_a, scn_c, scn_b]))
       else (0, concat (map (verdict replay_10) [scn_a, scn_c, scn_b])))"
    using t by blast
  then have s: "suite_run replay_10 [scn_a, scn_c, scn_b] =
     (1, [ScenarioStarted ''a'', ScenarioFail (ScoreBelowMin 10 (- 5) 0),
          ScenarioStarted ''c'', ScenarioPass 1,
          ScenarioStarted ''b'', ScenarioFail (PrefixMissing 20),
          FailuresHeader,
          FailureEntry ''a'' (ScoreBelowMin 10 (- 5) 0),
          FailureEntry ''b'' (PrefixMissing 20)])"
    unfolding mf vd by simp
  show ?thesis using h1 h2 h3 ps r s by simp
qed

text \<open>
  The claim as stated fails where an earlier declared prefix breaks a bound: scenario
  \<open>a\<close> declares the prefixes \<open>10\<close> and \<open>20\<close> with \<open>score_cp_min = 0\<close>; the summary has
  prefix \<open>10\<close> at \<open>-5\<close> centipawns and omits prefix \<open>20\<close>. The scenario fails on the score
  of prefix \<open>10\<close>, and the reason does not name the missing prefix.
\<close>

theorem regression_missing_prefix_not_named:
  "replay_10 scn_a = Inr summary_10 \<and> 20 \<in> set (scn_prefixes scn_a) \<and>
   20 \<notin> set (summary_numbers summary_10) \<and>
   run_scenario replay_10 scn_a = Inl (ScoreBelowMin 10 (- 5) 0) \<and>
   run_scenario replay_10 scn_a \<noteq> Inl (PrefixMissing 20)"
proof -
  have ps: "parse_summary summary_10 =
     Inr [(10, \<lparr>pr_bestmove = ''7g7f'', pr_depth = 5, pr_seldepth = 7, pr_score_cp = - 5\<rparr>)]"
    by (simp add: parse_summary_def summary_10_def Let_def)
  have ra: "run_scenario replay_10 scn_a = Inl (ScoreBelowMin 10 (- 5) 0)"
    by (simp add: run_scenario_def replay_10_def ps check_bounds_def scn_a_def)
  have h3: "20 \<notin> set (summary_numbers summary_10)"
    by (simp add: summary_numbers_def summary_10_def map_filter_simps)
  show ?thesis using ra h3 by (simp add: replay_10_def scn_a_def)
qed

section \<open>Position rewind and target generation: proofs\<close>

lemma moves_not_early:
  assumes "take 7 (c # cs @ '' moves '' @ r) = '' moves ''"
  shows "take 6 (c # cs) = '' moves''"
proof -
  have c: "c = CHR '' ''" using assms by simp
  show ?thesis
  proof (cases cs)
    case Nil
    then show ?thesis using assms by simp
  next
    case c1: (Cons a1 cs1)
    show ?thesis
    proof (cases cs1)
      case Nil
      then show ?thesis using assms c1 by simp
    next
      case c2: (Cons a2 cs2)
      show ?thesis
      proof (cases cs2)
        case Nil
        then show ?thesis using assms c1 c2 by simp
      next
        case c3: (Cons a3 cs3)
        show ?thesis
        proof (cases cs3)
          case Nil
          then show ?thesis using assms c1 c2 c3 by simp
        next
          case c4: (Cons a4 cs4)
          show ?thesis
          proof (cases cs4)
            case Nil
            then show ?thesis using assms c1 c2 c3 c4 by simp
          next
            case c5: (Cons a5 cs5)
            then show ?thesis using assms c1 c2 c3 c4 by simp
          qed
        qed
      qed
    qed
  qed
qed

lemma has_sub_moves_Cons:
  "has_sub '' moves'' (c # cs) \<longleftrightarrow> take 6 (c # cs) = '' moves'' \<or> has_sub '' moves'' cs"
proof -
  have "length '' moves'' = 6" by simp
  then show ?thesis by (metis has_sub.simps(2))
qed

lemma split_once_moves_Cons:
  "split_once '' moves '' (c # cs) =
     (if take 7 (c # cs) = '' moves '' then Some ([], drop 7 (c # cs))
      else map_option (\<lambda>(h, r). (c # h, r)) (split_once '' moves '' cs))"
proof -
  have "length '' moves '' = 7" by simp
  then show ?thesis by (metis split_once.simps(2))
qed

lemma has_sub_moves_sp_Cons:
  "has_sub '' moves '' (c # cs) \<longleftrightarrow> take 7 (c # cs) = '' moves '' \<or> has_sub '' moves '' cs"
proof -
  have "length '' moves '' = 7" by simp
  then show ?thesis by (metis has_sub.simps(2))
qed

lemma split_once_head:
  "\<not> has_sub '' moves'' h \<Longrightarrow> split_once '' moves '' (h @ '' moves '' @ r) = Some (h, r)"
proof (induction h)
  case Nil
  then show ?case unfolding append_Nil by (simp add: split_once_moves_Cons)
next
  case (Cons c cs)
  have n: "take 6 (c # cs) \<noteq> '' moves''" "\<not> has_sub '' moves'' cs"
    using Cons.prems unfolding has_sub_moves_Cons by blast+
  have ne: "take 7 (c # cs @ '' moves '' @ r) \<noteq> '' moves ''"
    using moves_not_early [of c cs r] n(1) by blast
  have "split_once '' moves '' (c # cs @ '' moves '' @ r) =
      map_option (\<lambda>(h, r). (c # h, r)) (split_once '' moves '' (cs @ '' moves '' @ r))"
    unfolding split_once_moves_Cons by (simp only: ne if_False)
  also have "\<dots> = Some (c # cs, r)"
    unfolding Cons.IH [OF n(2)] by simp
  finally show ?case by (simp only: append_Cons)
qed


lemma has_sub_moves_sp_imp:
  "has_sub '' moves '' s \<Longrightarrow> has_sub '' moves'' s"
proof (induction s)
  case Nil
  then show ?case by simp
next
  case (Cons c cs)
  have "take 7 (c # cs) = '' moves '' \<Longrightarrow> take 6 (c # cs) = '' moves''"
  proof -
    assume a: "take 7 (c # cs) = '' moves ''"
    have "take 6 (take 7 (c # cs)) = take 6 (c # cs)" by (simp only: take_take) simp
    then show ?thesis unfolding a by simp
  qed
  then show ?case
    using Cons unfolding has_sub_moves_Cons has_sub_moves_sp_Cons by blast
qed

lemma split_once_None: "\<not> has_sub '' moves '' s \<Longrightarrow> split_once '' moves '' s = None"
proof (induction s)
  case Nil
  then show ?case by simp
next
  case (Cons c cs)
  then show ?case unfolding has_sub_moves_sp_Cons split_once_moves_Cons by simp
qed

lemma has_sub_moves_sp_append: "has_sub '' moves '' (h @ '' moves '' @ r)"
proof (induction h)
  case Nil
  show ?case unfolding append_Nil by (simp add: has_sub_moves_sp_Cons)
next
  case (Cons c cs)
  then show ?case unfolding append_Cons has_sub_moves_sp_Cons by blast
qed

lemma split_ws_token:
  "\<forall>c \<in> set t. \<not> is_space c \<Longrightarrow> split_ws cur (t @ rest) = split_ws (cur @ t) rest"
  by (induction t arbitrary: cur) simp_all

lemma py_split_join:
  "\<forall>t \<in> set ts. wf_token t \<Longrightarrow> split_ws [] (join_sp ts) = ts"
proof (induction ts rule: join_sp.induct)
  case 1
  then show ?case by simp
next
  case (2 t)
  then have "split_ws [] (t @ []) = split_ws ([] @ t) []"
    using split_ws_token [of t "[]" "[]"] by (simp add: wf_token_def)
  then show ?case using 2 by (simp add: wf_token_def)
next
  case (3 t u ts)
  have t: "t \<noteq> []" "\<forall>c \<in> set t. \<not> is_space c" using 3(2) by (simp_all add: wf_token_def)
  have sp: "is_space CHR '' ''" by (simp add: is_space_def)
  have "split_ws [] (t @ '' '' @ join_sp (u # ts)) = split_ws ([] @ t) ('' '' @ join_sp (u # ts))"
    using split_ws_token [OF t(2)] by blast
  also have "\<dots> = t # split_ws [] (join_sp (u # ts))"
    using t(1) sp by simp
  also have "\<dots> = t # u # ts" using 3 by simp
  finally show ?case by simp
qed

lemma join_sp_hd_last:
  "ts \<noteq> [] \<Longrightarrow> \<forall>t \<in> set ts. wf_token t \<Longrightarrow>
   join_sp ts \<noteq> [] \<and> hd (join_sp ts) = hd (hd ts) \<and> last (join_sp ts) = last (last ts)"
proof (induction ts rule: join_sp.induct)
  case 1
  then show ?case by simp
next
  case (2 t)
  then show ?case by (simp add: wf_token_def)
next
  case (3 t u ts)
  have t: "t \<noteq> []" using 3(3) by (simp add: wf_token_def)
  have ih: "join_sp (u # ts) \<noteq> []" "last (join_sp (u # ts)) = last (last (u # ts))"
    using 3 by simp_all
  show ?case using t ih by simp
qed

lemma py_strip_id:
  "s \<noteq> [] \<Longrightarrow> \<not> is_space (hd s) \<Longrightarrow> \<not> is_space (last s) \<Longrightarrow> py_strip s = s"
proof -
  assume a: "s \<noteq> []" "\<not> is_space (hd s)" "\<not> is_space (last s)"
  have 1: "dropWhile is_space s = s" using a(1,2) by (cases s) simp_all
  have 2: "dropWhile is_space (rev s) = rev s"
    using a(1,3) by (cases "rev s") (simp_all add: last_rev [symmetric] hd_rev)
  show ?thesis unfolding py_strip_def 1 2 by simp
qed

lemma move_tokens_join:
  assumes "\<forall>t \<in> set ts. wf_token t"
  shows "move_tokens (join_sp ts) = ts"
proof (cases "ts = []")
  case True
  then show ?thesis by (simp add: move_tokens_def py_strip_def py_split_def)
next
  case False
  have hl: "join_sp ts \<noteq> []" "hd (join_sp ts) = hd (hd ts)" "last (join_sp ts) = last (last ts)"
    using join_sp_hd_last [OF False assms] by simp_all
  have "wf_token (hd ts)" "wf_token (last ts)" using False assms by simp_all
  then have "\<not> is_space (hd (hd ts))" "\<not> is_space (last (last ts))"
    by (simp_all add: wf_token_def)
  then have st: "py_strip (join_sp ts) = join_sp ts"
    using py_strip_id hl by simp
  have ne: "filter (\<lambda>t. t \<noteq> []) ts = ts"
    using assms by (simp add: wf_token_def)
  show ?thesis
    unfolding move_tokens_def st py_split_def py_split_join [OF assms] ne ..
qed


lemma re_head_from_head:
  assumes "\<not> has_sub '' moves'' h" and "word_after r"
    and "h = [] \<longrightarrow> word_before prev" and "h \<noteq> [] \<longrightarrow> is_word (last h)"
  shows "re_head_from prev (h @ '' moves '' @ r) = h"
  using assms
proof (induction h arbitrary: prev)
  case Nil
  have "re_head_from prev ('' moves '' @ r) = []"
    using Nil(2,3) by simp
  then show ?case by simp
next
  case (Cons c cs)
  have n: "take 6 (c # cs) \<noteq> '' moves''" "\<not> has_sub '' moves'' cs"
    using Cons.prems(1) unfolding has_sub_moves_Cons by blast+
  have ne: "take 7 (c # cs @ '' moves '' @ r) \<noteq> '' moves ''"
    using moves_not_early [of c cs r] n(1) by blast
  have "re_head_from prev (c # cs @ '' moves '' @ r) =
      c # re_head_from (Some c) (cs @ '' moves '' @ r)"
    unfolding re_head_from.simps by (simp only: ne if_False simp_thms)
  also have "re_head_from (Some c) (cs @ '' moves '' @ r) = cs"
  proof (rule Cons.IH [OF n(2) Cons.prems(2)])
    show "cs = [] \<longrightarrow> word_before (Some c)"
      using Cons.prems(4) by (auto simp: word_before_def)
    show "cs \<noteq> [] \<longrightarrow> is_word (last cs)"
      using Cons.prems(4) by auto
  qed
  finally show ?case by (simp only: append_Cons)
qed

lemma re_head_position:
  assumes "wf_head h" and "is_word (last h)" and "ts \<noteq> []" and "is_word (hd (hd ts))"
    and "\<forall>t \<in> set ts. wf_token t"
  shows "re_head (h @ '' moves '' @ join_sp ts) = h"
proof -
  have j: "join_sp ts \<noteq> []" "hd (join_sp ts) = hd (hd ts)"
    using join_sp_hd_last [OF assms(3,5)] by simp_all
  have wa: "word_after (join_sp ts)"
    using j assms(4) by (cases "join_sp ts") (simp_all add: word_after_def)
  show ?thesis
    unfolding re_head_def
    using re_head_from_head [of h "join_sp ts" None] assms(1,2) wa
    by (simp add: wf_head_def)
qed

lemma position_Nil: "position h [] = h"
  by (simp add: position_def)

lemma position_split:
  assumes "wf_head h" and "ts \<noteq> []"
  shows "position h ts \<noteq> []" and "has_sub '' moves '' (position h ts)"
    and "split_once '' moves '' (position h ts) = Some (h, join_sp ts)"
  using assms has_sub_moves_sp_append [of h "join_sp ts"] split_once_head [of h "join_sp ts"]
  by (simp_all add: position_def wf_head_def)

lemma position_head_only:
  assumes "wf_head h"
  shows "h \<noteq> []" and "\<not> has_sub '' moves '' h" and "split_once '' moves '' h = None"
proof -
  show "h \<noteq> []" using assms by (simp add: wf_head_def)
  show n: "\<not> has_sub '' moves '' h"
    using assms has_sub_moves_sp_imp [of h] by (auto simp: wf_head_def)
  show "split_once '' moves '' h = None" using split_once_None [OF n] .
qed

text \<open>
  The rewind invariant on the two generators that read logs: for a well-formed position
  with \<open>N\<close> move tokens and \<open>k \<ge> 0\<close>, the result has the same head and the first \<open>N - k\<close>
  tokens, which is the bare head when \<open>k \<ge> N\<close>. The regular expression of
  \<^verbatim>\<open>make_targets_from_logs.py\<close> finds the head when word characters stand on both sides
  of \<^verbatim>\<open> moves \<close>.
\<close>

lemma chop_moves_moves_rewind:
  assumes "wf_head h" and "\<forall>t \<in> set ts. wf_token t" and "0 \<le> k"
  shows "chop_moves_moves (Some (position h ts)) k = Some (position h (take (length ts - nat k) ts))"
proof (cases "ts = []")
  case True
  show ?thesis
    unfolding True position_Nil chop_moves_moves_def
    using position_head_only [OF assms(1)] by (simp add: position_Nil)
next
  case False
  note ps = position_split [OF assms(1) False]
  show ?thesis
  proof (cases "k = 0")
    case True
    then show ?thesis unfolding chop_moves_moves_def using ps(1) by simp
  next
    case k: False
    have e: "(if int (length ts) \<ge> k then take (length ts - nat k) ts else []) =
        take (length ts - nat k) ts"
      using assms(3) by auto
    show ?thesis
      unfolding chop_moves_moves_def
      using ps k assms(3) e
      by (auto simp add: move_tokens_join [OF assms(2)] Let_def position_def)
  qed
qed

lemma chop_moves_logs_rewind:
  assumes "wf_head h" and "\<forall>t \<in> set ts. wf_token t" and "0 \<le> k"
    and "is_word (last h)" and "ts \<noteq> [] \<longrightarrow> is_word (hd (hd ts))"
  shows "chop_moves_logs (Some (position h ts)) k = Some (position h (take (length ts - nat k) ts))"
proof (cases "ts = []")
  case True
  show ?thesis
    unfolding True position_Nil chop_moves_logs_def
    using position_head_only [OF assms(1)] by (simp add: position_Nil)
next
  case False
  note ps = position_split [OF assms(1) False]
  have rh: "re_head (position h ts) = h"
    using re_head_position [OF assms(1,4) False _ assms(2)] assms(5) False
    by (simp add: position_def)
  show ?thesis
  proof (cases "k = 0")
    case True
    then show ?thesis unfolding chop_moves_logs_def using ps(1) by simp
  next
    case k: False
    have e: "(if int (length ts) \<ge> k then take (length ts - nat k) ts else []) =
        take (length ts - nat k) ts"
      using assms(3) by auto
    show ?thesis
      unfolding chop_moves_logs_def
      using ps k assms(3) e rh
      by (auto simp add: move_tokens_join [OF assms(2)] Let_def position_def)
  qed
qed

text \<open>
  \<^verbatim>\<open>expand_targets_back.chop_moves\<close> agrees for \<open>k \<le> N\<close>, and returns the position with all
  its \<open>N\<close> tokens for \<open>k > N\<close>.
\<close>

lemma chop_moves_back_rewind:
  assumes "wf_head h" and "\<forall>t \<in> set ts. wf_token t" and "0 \<le> k"
  shows "chop_moves_back (position h ts) k =
     (if k \<le> int (length ts) then position h (take (length ts - nat k) ts) else position h ts)"
proof (cases "ts = []")
  case True
  show ?thesis
    unfolding True position_Nil chop_moves_back_def
    using position_head_only [OF assms(1)] by (simp add: position_Nil)
next
  case False
  note ps = position_split [OF assms(1) False]
  have e: "(if k > 0 \<and> int (length ts) \<ge> k then take (length ts - nat k) ts else ts) =
      (if k \<le> int (length ts) then take (length ts - nat k) ts else ts)"
    using assms(3) by auto
  show ?thesis
    unfolding chop_moves_back_def
    using ps e False
    by (simp add: move_tokens_join [OF assms(2)] Let_def position_def)
qed

lemma dedup_loop_append:
  "dedup_loop st (xs @ ys) = dedup_loop (dedup_loop st xs) ys"
proof (induction xs arbitrary: st)
  case Nil
  then show ?case by simp
next
  case (Cons x xs)
  obtain u ts where st: "st = (u, ts)" by (cases st)
  show ?case unfolding st using Cons.IH by simp
qed

lemma gen_backs_dedup:
  "gen_backs base stem ply delta pos_after ks st =
     dedup_loop st (backs_candidates base stem ply delta pos_after ks)"
proof (induction ks arbitrary: st)
  case Nil
  then show ?case by (simp add: backs_candidates_def)
next
  case (Cons k ks)
  obtain u ts where st: "st = (u, ts)" by (cases st)
  have c: "backs_candidates base stem ply delta pos_after (k # ks) =
      (case chop_moves_logs pos_after k of
         None \<Rightarrow> []
       | Some pos \<Rightarrow> if pos = [] then [] else [new_target base stem ply delta k pos]) @
      backs_candidates base stem ply delta pos_after ks"
    by (simp add: backs_candidates_def)
  have p: "tg_pre_position (new_target base stem ply delta k pos) = pos" for pos
    by (simp add: new_target_def)
  show ?case
    unfolding st c dedup_loop_append
    by (cases "chop_moves_logs pos_after k") (simp_all add: Cons.IH p)
qed

lemma gen_spikes_dedup:
  "gen_spikes back_min back_max base stem best spikes st =
     dedup_loop st (spikes_candidates back_min back_max base stem best spikes)"
proof (induction spikes arbitrary: st)
  case Nil
  then show ?case by (simp add: spikes_candidates_def)
next
  case (Cons sp spikes)
  obtain ply delta where sp: "sp = (ply, delta)" by (cases sp)
  have c: "spikes_candidates back_min back_max base stem best ((ply, delta) # spikes) =
      (if ply < 1 \<or> ply > length best then []
       else backs_candidates base stem ply delta (be_pos_after (best ! (ply - 1)))
              [back_min .. back_max]) @
      spikes_candidates back_min back_max base stem best spikes"
    by (simp add: spikes_candidates_def)
  show ?case
    unfolding sp c dedup_loop_append
    by (simp add: Cons.IH gen_backs_dedup)
qed

lemma gen_logs_dedup:
  "gen_logs back_min back_max logs st = dedup_loop st (candidates back_min back_max logs)"
proof (induction logs arbitrary: st)
  case Nil
  then show ?case by (simp add: candidates_def)
next
  case (Cons l ls)
  have c: "candidates back_min back_max (l # ls) =
      spikes_candidates back_min back_max (ld_base l) (ld_stem l) (ld_best l) (ld_spikes l) @
      candidates back_min back_max ls"
    by (simp add: candidates_def)
  show ?case
    unfolding c dedup_loop_append by (simp add: Cons.IH gen_spikes_dedup)
qed

lemma dedup_loop_firsts:
  "dedup_loop (u, ts) cs = (u \<union> set (map tg_pre_position cs), ts @ firsts u cs)"
  by (induction cs arbitrary: u ts) auto

lemma firsts_positions:
  "set (map tg_pre_position (firsts seen cs)) = set (map tg_pre_position cs) - seen"
  by (induction cs arbitrary: seen) auto

lemma firsts_distinct: "distinct (map tg_pre_position (firsts seen cs))"
proof (induction cs arbitrary: seen)
  case Nil
  then show ?case by simp
next
  case (Cons c cs)
  have "tg_pre_position c \<notin> set (map tg_pre_position (firsts (insert (tg_pre_position c) seen) cs))"
    unfolding firsts_positions by simp
  then show ?case using Cons.IH by simp
qed

lemma firsts_index:
  "firsts seen cs =
     map (\<lambda>i. cs ! i)
       (filter (\<lambda>i. tg_pre_position (cs ! i) \<notin> seen \<union> set (map tg_pre_position (take i cs)))
          [0 ..< length cs])"
proof (induction cs arbitrary: seen)
  case Nil
  then show ?case by simp
next
  case (Cons c cs)
  have u: "[0 ..< length (c # cs)] = 0 # map Suc [0 ..< length cs]"
    by (simp add: upt_conv_Cons map_Suc_upt del: upt_Suc)
  show ?case
  proof (cases "tg_pre_position c \<in> seen")
    case True
    have f: "filter (\<lambda>x. tg_pre_position (cs ! x) \<notin> seen \<and>
                tg_pre_position (cs ! x) \<noteq> tg_pre_position c \<and>
                tg_pre_position (cs ! x) \<notin> tg_pre_position ` set (take x cs)) [0 ..< length cs] =
        filter (\<lambda>i. tg_pre_position (cs ! i) \<notin> seen \<and>
                tg_pre_position (cs ! i) \<notin> tg_pre_position ` set (take i cs)) [0 ..< length cs]"
      by (rule filter_cong) (use True in auto)
    show ?thesis
      unfolding u using True Cons.IH [of seen]
      by (simp add: filter_map comp_def f)
  next
    case False
    show ?thesis
      unfolding u using False Cons.IH [of "insert (tg_pre_position c) seen"]
      by (simp add: filter_map comp_def conj_commute conj_left_commute)
  qed
qed

lemma make_targets_firsts:
  "make_targets back_min back_max logs = firsts {} (candidates back_min back_max logs)"
  by (simp add: make_targets_def gen_logs_dedup dedup_loop_firsts)

text \<open>
  Claim C1. The rewind operation should return the same head with the first \<open>N - k\<close> move
  tokens when \<open>k \<le> N\<close> and the bare head when \<open>k > N\<close>. The \<^verbatim>\<open>chop_moves\<close> of
  \<^verbatim>\<open>make_targets_from_logs.py\<close> and of \<^verbatim>\<open>make_targets_from_moves.py\<close> do so
  (\<open>chop_moves_logs_rewind\<close>, \<open>chop_moves_moves_rewind\<close>); the \<^verbatim>\<open>chop_moves\<close> of
  \<^verbatim>\<open>expand_targets_back.py\<close> does not: rewinding the two-token position
  \<^verbatim>\<open>startpos moves 7g7f 3c3d\<close> by \<open>k = 3\<close> returns the position unchanged, where the other
  two return the bare head \<^verbatim>\<open>startpos\<close>.
\<close>

theorem chop_moves_back_beyond_tokens:
  "chop_moves_back ''startpos moves 7g7f 3c3d'' 3 = ''startpos moves 7g7f 3c3d'' \<and>
   chop_moves_back ''startpos moves 7g7f 3c3d'' 3 \<noteq> position ''startpos'' [] \<and>
   chop_moves_logs (Some ''startpos moves 7g7f 3c3d'') 3 = Some (position ''startpos'' []) \<and>
   chop_moves_moves (Some ''startpos moves 7g7f 3c3d'') 3 = Some (position ''startpos'' [])"
  by code_simp

theorem chop_moves_back_beyond_tokens_witness:
  "chop_moves_back ''startpos moves 7g7f 3c3d'' 3 = ''startpos moves 7g7f 3c3d'' \<and>
   chop_moves_logs (Some ''startpos moves 7g7f 3c3d'') 3 = Some ''startpos'' \<and>
   chop_moves_moves (Some ''startpos moves 7g7f 3c3d'') 3 = Some ''startpos''"
  using chop_moves_back_beyond_tokens by (simp add: position_def)

text \<open>
  Claim C2, as amended. Within one batch of \<^verbatim>\<open>make_targets_from_logs.py\<close>, no two emitted
  targets have an identical resulting position string, no matter how many (spike, rewind
  depth) pairs produce that string: the emitted targets are, in processing order, exactly
  the candidates that are the first with their position, and every candidate's position
  is emitted once. (\<^verbatim>\<open>expand_targets_back.py\<close> does not deduplicate: it emits one target
  for every input target and rewind depth.)
\<close>

theorem make_targets_dedup:
  "distinct (map tg_pre_position (make_targets back_min back_max logs)) \<and>
   make_targets back_min back_max logs =
     first_occurrences tg_pre_position (candidates back_min back_max logs) \<and>
   set (map tg_pre_position (make_targets back_min back_max logs)) =
     set (map tg_pre_position (candidates back_min back_max logs))"
proof -
  have f: "firsts {} cs = first_occurrences tg_pre_position cs" for cs
    unfolding firsts_index first_occurrences_def by simp
  show ?thesis
    unfolding make_targets_firsts
    using firsts_distinct [of "{}"] firsts_positions [of "{}"] f by simp
qed

text \<open>
  The claim as stated fails on \<^verbatim>\<open>expand_targets_back.main\<close>: from two input targets taken
  one move apart, with rewind depths \<open>2..3\<close> (each within the number of moves), rewinding
  the first by 2 and the second by 3 gives the same position, and both are emitted.
\<close>

theorem expand_back_duplicate_positions:
  "map bt_pre_position (expand_back base_2 2 3) =
     [Some ''startpos moves 7g7f'', Some ''startpos'',
      Some ''startpos moves 7g7f 3c3d'', Some ''startpos moves 7g7f''] \<and>
   map bt_tag (expand_back base_2 2 3) = [''s1_back2'', ''s1_back3'', ''s2_back2'', ''s2_back3''] \<and>
   \<not> distinct (map bt_pre_position (expand_back base_2 2 3))"
proof -
  have p: "map bt_pre_position (expand_back base_2 2 3) =
     [Some ''startpos moves 7g7f'', Some ''startpos'',
      Some ''startpos moves 7g7f 3c3d'', Some ''startpos moves 7g7f'']"
    by code_simp
  have t: "map bt_tag (expand_back base_2 2 3) = [''s1_back2'', ''s1_back3'', ''s2_back2'', ''s2_back3'']"
    by code_simp
  show ?thesis unfolding p t by simp
qed

end
